theory Spec2Isabelle
  imports Complex_Main "HOL-Library.Monad_Syntax"
begin

section \<open>Numbers\<close>

text \<open>
  The interpolator computes on JavaScript numbers. They are modelled as the reals extended by
  one value \<open>NaN\<close>: finite arithmetic is exact (rounding, overflow and the infinities are
  abstracted away), and \<open>NaN\<close> is what arithmetic yields on \<open>undefined\<close>, the value of
  an array read past the end. \<open>NaN\<close> is absorbing for the arithmetic operations and every
  comparison with it is false, as in the language.

  Numbers handed in by the caller (coordinates, values, the smoothing and shape parameters)
  are finite and have type \<open>real\<close>; numbers computed by the interpolator have type \<open>number\<close>.
\<close>

datatype number = Num real | NaN

instantiation number :: "{zero, plus, minus, uminus, times, inverse, ord}"
begin

definition zero_number :: number where
  "zero_number = Num 0"

fun plus_number :: "number \<Rightarrow> number \<Rightarrow> number" where
  "plus_number (Num a) (Num b) = Num (a + b)"
| "plus_number _ _ = NaN"

fun minus_number :: "number \<Rightarrow> number \<Rightarrow> number" where
  "minus_number (Num a) (Num b) = Num (a - b)"
| "minus_number _ _ = NaN"

fun uminus_number :: "number \<Rightarrow> number" where
  "uminus_number (Num a) = Num (- a)"
| "uminus_number NaN = NaN"

fun times_number :: "number \<Rightarrow> number \<Rightarrow> number" where
  "times_number (Num a) (Num b) = Num (a * b)"
| "times_number _ _ = NaN"

text \<open>
  A finite number divided by a finite zero is an infinity or \<open>NaN\<close> in the language; the
  model has no infinities and answers \<open>NaN\<close>. No division of the interpolator can meet a
  finite zero divisor: the pivots are checked against the threshold before they divide, the
  pair count is tested positive, and the root under the inverse multiquadric is at least 1.
\<close>

fun divide_number :: "number \<Rightarrow> number \<Rightarrow> number" where
  "divide_number (Num a) (Num b) = (if b = 0 then NaN else Num (a / b))"
| "divide_number _ _ = NaN"

fun inverse_number :: "number \<Rightarrow> number" where
  "inverse_number (Num a) = (if a = 0 then NaN else Num (1 / a))"
| "inverse_number NaN = NaN"

fun less_number :: "number \<Rightarrow> number \<Rightarrow> bool" where
  "less_number (Num a) (Num b) = (a < b)"
| "less_number _ _ = False"

fun less_eq_number :: "number \<Rightarrow> number \<Rightarrow> bool" where
  "less_eq_number (Num a) (Num b) = (a \<le> b)"
| "less_eq_number _ _ = False"

instance ..

end

text \<open>
  With \<open>NaN\<close> absorbing, addition is still associative and commutative with neutral
  element \<open>Num 0\<close>, so finite sums of numbers are written with \<open>\<Sum>\<close>.
\<close>

instance number :: comm_monoid_add
proof (intro_classes, goal_cases)
  case (1 x y z)
  then show ?case by (cases x; cases y; cases z; simp)
next
  case (2 x y)
  then show ?case by (cases x; cases y; simp)
next
  case (3 x)
  then show ?case by (cases x; simp add: zero_number_def)
qed

fun Math_abs :: "number \<Rightarrow> number" where
  "Math_abs (Num a) = Num \<bar>a\<bar>"
| "Math_abs NaN = NaN"

fun Math_sqrt :: "number \<Rightarrow> number" where
  "Math_sqrt (Num a) = (if 0 \<le> a then Num (sqrt a) else NaN)"
| "Math_sqrt NaN = NaN"

text \<open>
  \<open>Math.log\<close> of a negative number is \<open>NaN\<close>. At 0 the language answers minus infinity,
  which the model does not have; the only call, in the thin-plate kernel, is guarded by
  \<open>r === 0\<close>.
\<close>

fun Math_log :: "number \<Rightarrow> number" where
  "Math_log (Num a) = (if 0 < a then Num (ln a) else NaN)"
| "Math_log NaN = NaN"

fun Math_exp :: "number \<Rightarrow> number" where
  "Math_exp (Num a) = Num (exp a)"
| "Math_exp NaN = NaN"

text \<open>\<open>x ** k\<close> for a literal exponent \<open>k\<close>.\<close>

fun pow :: "number \<Rightarrow> nat \<Rightarrow> number" where
  "pow (Num a) k = Num (a ^ k)"
| "pow NaN k = NaN"

text \<open>
  Array reads used as numbers: inside the array the element, past the end \<open>undefined\<close>,
  which arithmetic turns into \<open>NaN\<close>.
\<close>

definition elem :: "number list \<Rightarrow> nat \<Rightarrow> number" where
  "elem xs i = (if i < length xs then xs ! i else NaN)"

definition elemr :: "real list \<Rightarrow> nat \<Rightarrow> number" where
  "elemr xs i = (if i < length xs then Num (xs ! i) else NaN)"

section \<open>The interpolator\<close>

text \<open>
  The source throws \<open>Error\<close> with a message; the constructors name the error kinds of the
  specification:
  \<^item> \<open>DimensionMismatch\<close>: ``Number of points must match number of values'' and
    ``Point dimension (..) must match training data dimension (..)'';
  \<^item> \<open>EmptyTrainingSet\<close>: ``At least one data point is required'';
  \<^item> \<open>InvalidKernel\<close>: ``Unknown radial basis function: ..'';
  \<^item> \<open>SingularMatrix\<close>: ``Matrix is singular or nearly singular''.
\<close>

datatype error = DimensionMismatch | EmptyTrainingSet | InvalidKernel | SingularMatrix

text \<open>
  The fields of the class. The field \<open>norm\<close> of the source is \<open>norm'\<close> here.
\<close>

record RbfInterpolator =
  di :: "real list"
  weights :: "number list"
  nodes :: "real list list"
  smooth :: real
  epsilon :: number
  norm' :: "real list \<Rightarrow> real list \<Rightarrow> number"

subsection \<open>Distance and kernels\<close>

text \<open>
  \<open>euclideanDistance\<close> runs over the indices of \<open>p1\<close>; \<open>p2[i]\<close> is read past the end
  when \<open>p2\<close> is the shorter one.
\<close>

definition euclideanDistance :: "real list \<Rightarrow> real list \<Rightarrow> number" where
  "euclideanDistance p1 p2 =
     Math_sqrt (fold (\<lambda>i sum. let diff = Num (p1 ! i) - elemr p2 i in sum + diff * diff)
                  [0..<length p1] (Num 0))"

text \<open>\<open>String.prototype.toLowerCase\<close> on the ASCII letters.\<close>

definition toLowerCase_char :: "char \<Rightarrow> char" where
  "toLowerCase_char c =
     (case map_of (zip ''ABCDEFGHIJKLMNOPQRSTUVWXYZ'' ''abcdefghijklmnopqrstuvwxyz'') c of
        Some d \<Rightarrow> d
      | None \<Rightarrow> c)"

definition toLowerCase :: "string \<Rightarrow> string" where
  "toLowerCase s = map toLowerCase_char s"

text \<open>
  The closures returned by \<open>getRbfFunction\<close> read \<open>this.epsilon\<close> when they are called.
  The field is assigned once, in the constructor, before \<open>getRbfFunction\<close> runs; the model
  passes its value.
\<close>

definition getRbfFunction ::
  "number \<Rightarrow> string \<Rightarrow> error + (real list \<Rightarrow> real list \<Rightarrow> number)" where
  "getRbfFunction eps func =
     (let f = toLowerCase func in
      if f = ''thin_plate'' then
        Inr (\<lambda>x1 x2. let r = euclideanDistance x1 x2 in
               if r = Num 0 then Num 0 else r * r * Math_log r)
      else if f = ''multiquadric'' then
        Inr (\<lambda>x1 x2. let r = euclideanDistance x1 x2 in
               Math_sqrt (Num 1 + pow (eps * r) 2))
      else if f = ''inverse_multiquadric'' \<or> f = ''inverse'' then
        Inr (\<lambda>x1 x2. let r = euclideanDistance x1 x2 in
               Num 1 / Math_sqrt (Num 1 + pow (eps * r) 2))
      else if f = ''gaussian'' then
        Inr (\<lambda>x1 x2. let r = euclideanDistance x1 x2 in
               Math_exp (- pow (eps * r) 2))
      else if f = ''linear'' then
        Inr (\<lambda>x1 x2. euclideanDistance x1 x2)
      else if f = ''squared'' then
        Inr (\<lambda>x1 x2. let r = euclideanDistance x1 x2 in pow r 2)
      else if f = ''quintic'' then
        Inr (\<lambda>x1 x2. let r = euclideanDistance x1 x2 in pow r 5)
      else Inl InvalidKernel)"

subsection \<open>The shape parameter\<close>

text \<open>
  \<open>computeEpsilon\<close>: the two nested loops carry \<open>sumDist\<close> and \<open>count\<close>; \<open>count\<close> only
  counts and is a natural number.
\<close>

definition computeEpsilon :: "real list list \<Rightarrow> number" where
  "computeEpsilon points =
     (if length points < 2 then Num 1
      else
        let sampleSize = min (length points) 100;
            (sumDist, count) =
              fold (\<lambda>i acc.
                      fold (\<lambda>j (sumDist, count).
                              (sumDist + euclideanDistance (points ! i) (points ! j), count + 1))
                        [i + 1..<sampleSize] acc)
                [0..<sampleSize] (Num 0, 0 :: nat)
        in if count > 0 then sumDist / Num (real count) else Num 1)"

subsection \<open>The linear system and its solution\<close>

text \<open>
  The matrix of \<open>computeWeights\<close>: an \<open>n \<times> n\<close> array of zeros, filled row by row; after
  the row is filled the smoothing is added to its diagonal entry.
\<close>

definition interpolationMatrix ::
  "real list list \<Rightarrow> real \<Rightarrow> (real list \<Rightarrow> real list \<Rightarrow> number) \<Rightarrow> number list list" where
  "interpolationMatrix nds smth nrm =
     (let n = length nds in
      fold (\<lambda>i A.
              let row = fold (\<lambda>j row. row[j := nrm (nds ! i) (nds ! j)]) [0..<n] (A ! i)
              in A[i := row[i := elem row i + Num smth]])
        [0..<n] (replicate n (replicate n (Num 0))))"

text \<open>Partial pivoting: the row of the largest magnitude in column \<open>col\<close>, from row \<open>col\<close> on.\<close>

definition findPivot :: "nat \<Rightarrow> nat \<Rightarrow> number list list \<Rightarrow> nat" where
  "findPivot n col augmented =
     fold (\<lambda>row maxRow.
             if Math_abs (elem (augmented ! row) col) > Math_abs (elem (augmented ! maxRow) col)
             then row else maxRow)
       [col + 1..<n] col"

definition swapRows :: "nat \<Rightarrow> nat \<Rightarrow> number list list \<Rightarrow> number list list" where
  "swapRows col maxRow augmented =
     augmented[col := augmented ! maxRow, maxRow := augmented ! col]"

text \<open>
  The elimination of column \<open>col\<close> from one row: \<open>factor\<close> is computed once, then the
  entries \<open>col .. n\<close> of the row are updated in place.
\<close>

definition eliminateRow :: "nat \<Rightarrow> nat \<Rightarrow> number list \<Rightarrow> number list \<Rightarrow> number list" where
  "eliminateRow n col pivotRow r =
     (let factor = elem r col / elem pivotRow col in
      fold (\<lambda>j r. r[j := elem r j - factor * elem pivotRow j]) [col..<n + 1] r)"

definition eliminateColumn :: "nat \<Rightarrow> nat \<Rightarrow> number list list \<Rightarrow> number list list" where
  "eliminateColumn n col augmented =
     fold (\<lambda>row aug. aug[row := eliminateRow n col (aug ! col) (aug ! row)])
       [col + 1..<n] augmented"

text \<open>
  The literal \<open>1e-12\<close> of the check is a double, and no double is \<open>1 / 10 ^ 12\<close>: the
  literal denotes the nearest one, \<open>4951760157141521 / 2 ^ 92\<close>, a little below it.
\<close>

definition threshold :: number where
  "threshold = Num (4951760157141521 / 2 ^ 92)"

text \<open>The loop over the columns, from column \<open>col\<close> on; the throw ends it.\<close>

function forwardElimination ::
  "nat \<Rightarrow> nat \<Rightarrow> number list list \<Rightarrow> error + number list list" where
  "forwardElimination n col augmented =
     (if col < n then
        let maxRow = findPivot n col augmented;
            augmented = swapRows col maxRow augmented
        in if Math_abs (elem (augmented ! col) col) < threshold then Inl SingularMatrix
           else forwardElimination n (col + 1) (eliminateColumn n col augmented)
      else Inr augmented)"
  by pat_completeness auto
termination
  by (relation "measure (\<lambda>(n, col, augmented). n - col)") auto

declare forwardElimination.simps [simp del]

definition backSubstitution :: "nat \<Rightarrow> number list list \<Rightarrow> number list" where
  "backSubstitution n augmented =
     fold (\<lambda>i x.
             let sum = fold (\<lambda>j sum. sum - elem (augmented ! i) j * elem x j)
                         [i + 1..<n] (elem (augmented ! i) n)
             in x[i := sum / elem (augmented ! i) i])
       (rev [0..<n]) (replicate n (Num 0))"

text \<open>
  \<open>solveLinearSystem\<close> is private; its one caller passes an \<open>n \<times> n\<close> matrix and \<open>n\<close>
  values, so that every row of the augmented matrix has \<open>n + 1\<close> entries and all writes
  are inside the rows.
\<close>

definition augmentedMatrix :: "number list list \<Rightarrow> real list \<Rightarrow> number list list" where
  "augmentedMatrix A b = map (\<lambda>i. A ! i @ [elemr b i]) [0..<length A]"

definition solveLinearSystem :: "number list list \<Rightarrow> real list \<Rightarrow> error + number list" where
  "solveLinearSystem A b =
     (let n = length A;
          augmented = augmentedMatrix A b
      in case forwardElimination n 0 augmented of
           Inl e \<Rightarrow> Inl e
         | Inr augmented \<Rightarrow> Inr (backSubstitution n augmented))"

definition computeWeights ::
  "real list list \<Rightarrow> real list \<Rightarrow> real \<Rightarrow> (real list \<Rightarrow> real list \<Rightarrow> number)
     \<Rightarrow> error + number list" where
  "computeWeights nds vals smth nrm =
     solveLinearSystem (interpolationMatrix nds smth nrm) vals"

subsection \<open>Construction and evaluation\<close>

text \<open>
  The constructor; \<open>epsilon\<close> is \<open>None\<close> for \<open>null\<close>. (The parameter defaults of the source
  are \<open>'thin_plate'\<close>, \<open>0\<close> and \<open>null\<close>.) A throw leaves no object behind.
\<close>

definition constructor ::
  "real list list \<Rightarrow> real list \<Rightarrow> string \<Rightarrow> real \<Rightarrow> real option
     \<Rightarrow> error + RbfInterpolator" where
  "constructor points values func smth eps =
     (if length points \<noteq> length values then Inl DimensionMismatch
      else if length points = 0 then Inl EmptyTrainingSet
      else
        let e = (case eps of None \<Rightarrow> computeEpsilon points | Some x \<Rightarrow> Num x) in
        case getRbfFunction e func of
          Inl err \<Rightarrow> Inl err
        | Inr nrm \<Rightarrow>
            (case computeWeights points values smth nrm of
               Inl err \<Rightarrow> Inl err
             | Inr w \<Rightarrow>
                 Inr \<lparr>di = values, weights = w, nodes = points, smooth = smth,
                      epsilon = e, norm' = nrm\<rparr>))"

definition interpolatePoint :: "RbfInterpolator \<Rightarrow> real list \<Rightarrow> error + number" where
  "interpolatePoint this point =
     (if length point \<noteq> length (nodes this ! 0) then Inl DimensionMismatch
      else Inr (fold (\<lambda>i result. result + elem (weights this) i * norm' this point (nodes this ! i))
                  [0..<length (nodes this)] (Num 0)))"

text \<open>\<open>interpolate\<close> maps \<open>interpolatePoint\<close> over the queries; the first throw ends it.\<close>

fun interpolate :: "RbfInterpolator \<Rightarrow> real list list \<Rightarrow> error + number list" where
  "interpolate this [] = Inr []"
| "interpolate this (point # points) =
     (case interpolatePoint this point of
        Inl e \<Rightarrow> Inl e
      | Inr v \<Rightarrow> (case interpolate this points of Inl e \<Rightarrow> Inl e | Inr vs \<Rightarrow> Inr (v # vs)))"

section \<open>The interpolator on a store\<close>

text \<open>
  Arrays are objects: the constructor receives references to the caller's arrays, and the
  caller can write to them afterwards. For the statements about copying, the store is the list of
  all arrays allocated so far, a reference is an index into it, and allocation appends. An
  array holds numbers of the caller, references to rows, or computed numbers.
\<close>

type_synonym ref = nat

datatype array = Numbers "real list" | Rows "ref list" | Computed "number list"

type_synonym store = "array list"

definition alloc :: "array \<Rightarrow> store \<Rightarrow> ref \<times> store" where
  "alloc a h = (length h, h @ [a])"

text \<open>
  Reads return \<open>None\<close> when the reference does not lead to an array of the expected kind,
  which the parameter types of the source exclude.
\<close>

definition readNumbers :: "store \<Rightarrow> ref \<Rightarrow> real list option" where
  "readNumbers h r =
     (if r < length h then (case h ! r of Numbers xs \<Rightarrow> Some xs | _ \<Rightarrow> None) else None)"

definition readComputed :: "store \<Rightarrow> ref \<Rightarrow> number list option" where
  "readComputed h r =
     (if r < length h then (case h ! r of Computed xs \<Rightarrow> Some xs | _ \<Rightarrow> None) else None)"

definition readRows :: "store \<Rightarrow> ref \<Rightarrow> real list list option" where
  "readRows h r =
     (if r < length h
      then (case h ! r of Rows rs \<Rightarrow> those (map (readNumbers h) rs) | _ \<Rightarrow> None)
      else None)"

text \<open>\<open>points.map(p => [...p])\<close>: a fresh copy of every row, in order.\<close>

fun copyRows :: "store \<Rightarrow> real list list \<Rightarrow> ref list \<times> store" where
  "copyRows h [] = ([], h)"
| "copyRows h (p # ps) =
     (let (r, h) = alloc (Numbers p) h;
          (rs, h) = copyRows h ps
      in (r # rs, h))"

text \<open>The object with its array fields as references.\<close>

record RbfInterpolatorRef =
  diRef :: ref
  weightsRef :: ref
  nodesRef :: ref
  smoothVal :: real
  epsilonVal :: number
  normVal :: "real list \<Rightarrow> real list \<Rightarrow> number"

definition loadInterpolator :: "store \<Rightarrow> RbfInterpolatorRef \<Rightarrow> RbfInterpolator option" where
  "loadInterpolator h this = do {
     nds \<leftarrow> readRows h (nodesRef this);
     d \<leftarrow> readNumbers h (diRef this);
     w \<leftarrow> readComputed h (weightsRef this);
     Some \<lparr>di = d, weights = w, nodes = nds, smooth = smoothVal this,
           epsilon = epsilonVal this, norm' = normVal this\<rparr>
   }"

text \<open>
  The constructor on the store. The two checks read the caller's arrays; \<open>this.nodes\<close> and
  \<open>this.di\<close> are fresh copies; \<open>computeEpsilon\<close> is called on the caller's \<open>points\<close>;
  \<open>computeWeights\<close> reads \<open>this.nodes\<close> and \<open>this.di\<close> and its result is a fresh array.
  (The matrices of \<open>computeWeights\<close> are fresh too and unreachable afterwards; they are not
  put into the store.)
\<close>

definition constructorStore ::
  "store \<Rightarrow> ref \<Rightarrow> ref \<Rightarrow> string \<Rightarrow> real \<Rightarrow> real option
     \<Rightarrow> ((error + RbfInterpolatorRef) \<times> store) option" where
  "constructorStore h points values func smth eps = do {
     pts \<leftarrow> readRows h points;
     vals \<leftarrow> readNumbers h values;
     if length pts \<noteq> length vals then Some (Inl DimensionMismatch, h)
     else if length pts = 0 then Some (Inl EmptyTrainingSet, h)
     else do {
       let (rows, h) = copyRows h pts;
       let (nodesR, h) = alloc (Rows rows) h;
       let (diR, h) = alloc (Numbers vals) h;
       let e = (case eps of None \<Rightarrow> computeEpsilon pts | Some x \<Rightarrow> Num x);
       case getRbfFunction e func of
         Inl err \<Rightarrow> Some (Inl err, h)
       | Inr nrm \<Rightarrow> do {
           nds \<leftarrow> readRows h nodesR;
           d \<leftarrow> readNumbers h diR;
           case computeWeights nds d smth nrm of
             Inl err \<Rightarrow> Some (Inl err, h)
           | Inr w \<Rightarrow>
               let (weightsR, h) = alloc (Computed w) h
               in Some (Inr \<lparr>diRef = diR, weightsRef = weightsR, nodesRef = nodesR,
                             smoothVal = smth, epsilonVal = e, normVal = nrm\<rparr>, h)
         }
     }
   }"

text \<open>
  Evaluation on the store: the fields are read through their references, nothing is
  written.
\<close>

definition interpolatePointStore ::
  "store \<Rightarrow> RbfInterpolatorRef \<Rightarrow> real list \<Rightarrow> ((error + number) \<times> store) option" where
  "interpolatePointStore h this point = do {
     m \<leftarrow> loadInterpolator h this;
     Some (interpolatePoint m point, h)
   }"

definition interpolateStore ::
  "store \<Rightarrow> RbfInterpolatorRef \<Rightarrow> real list list
     \<Rightarrow> ((error + number list) \<times> store) option" where
  "interpolateStore h this points = do {
     m \<leftarrow> loadInterpolator h this;
     Some (interpolate m points, h)
   }"

section \<open>The kernels of the specification\<close>

text \<open>
  The specification describes the kernels as a closed variant over seven kinds, each with
  a formula on the distance \<open>r \<ge> 0\<close> and the shape parameter. \<open>kernel_value\<close> is its
  table, on the reals.
\<close>

datatype kernel =
  ThinPlate | Multiquadric | InverseMultiquadric | Gaussian | Linear | Squared | Quintic

fun kernel_value :: "kernel \<Rightarrow> real \<Rightarrow> real \<Rightarrow> real" where
  "kernel_value ThinPlate e r = (if r = 0 then 0 else r\<^sup>2 * ln r)"
| "kernel_value Multiquadric e r = sqrt (1 + (e * r)\<^sup>2)"
| "kernel_value InverseMultiquadric e r = 1 / sqrt (1 + (e * r)\<^sup>2)"
| "kernel_value Gaussian e r = exp (- ((e * r)\<^sup>2))"
| "kernel_value Linear e r = r"
| "kernel_value Squared e r = r\<^sup>2"
| "kernel_value Quintic e r = r ^ 5"

text \<open>The case labels of the switch in \<open>getRbfFunction\<close>, each with the kernel it selects.\<close>

definition kernelTags :: "(string \<times> kernel) list" where
  "kernelTags =
     [(''thin_plate'', ThinPlate), (''multiquadric'', Multiquadric),
      (''inverse_multiquadric'', InverseMultiquadric), (''inverse'', InverseMultiquadric),
      (''gaussian'', Gaussian), (''linear'', Linear), (''squared'', Squared),
      (''quintic'', Quintic)]"

definition kernelOf :: "string \<Rightarrow> kernel option" where
  "kernelOf func = map_of kernelTags (toLowerCase func)"

text \<open>
  The closures of \<open>getRbfFunction\<close> as functions of the distance: the body of each
  after \<open>const r = this.euclideanDistance(x1, x2)\<close>.
\<close>

fun radial :: "kernel \<Rightarrow> number \<Rightarrow> number \<Rightarrow> number" where
  "radial ThinPlate eps r = (if r = Num 0 then Num 0 else r * r * Math_log r)"
| "radial Multiquadric eps r = Math_sqrt (Num 1 + pow (eps * r) 2)"
| "radial InverseMultiquadric eps r = Num 1 / Math_sqrt (Num 1 + pow (eps * r) 2)"
| "radial Gaussian eps r = Math_exp (- pow (eps * r) 2)"
| "radial Linear eps r = r"
| "radial Squared eps r = pow r 2"
| "radial Quintic eps r = pow r 5"

text \<open>The Euclidean distance of two points with \<open>D\<close> coordinates.\<close>

definition distance :: "nat \<Rightarrow> real list \<Rightarrow> real list \<Rightarrow> real" where
  "distance D x y = sqrt (\<Sum>k<D. (x ! k - y ! k)\<^sup>2)"

section \<open>Notions for the elimination\<close>

text \<open>
  The rule of partial pivoting, as the specification words it: row \<open>m\<close> is the first row,
  from row \<open>col\<close> on, whose entry in column \<open>col\<close> has the largest magnitude. No row
  from \<open>col\<close> on has an entry of larger magnitude, and no row before \<open>m\<close> has one as
  large. (A comparison with \<open>NaN\<close> is false.)
\<close>

definition firstLargest :: "nat \<Rightarrow> nat \<Rightarrow> number list list \<Rightarrow> nat \<Rightarrow> bool" where
  "firstLargest n col aug m \<longleftrightarrow>
     col \<le> m \<and> m < n \<and>
     (\<forall>r\<in>{col..<n}. \<not> Math_abs (elem (aug ! m) col) < Math_abs (elem (aug ! r) col)) \<and>
     (\<forall>r\<in>{col..<m}. \<not> Math_abs (elem (aug ! m) col) \<le> Math_abs (elem (aug ! r) col))"

text \<open>
  The loop over the columns with the elimination of a column as a parameter
  (\<open>forwardElimination\<close> is the loop with \<open>eliminateColumn\<close>). Magnitudes and
  comparisons are exact in machine arithmetic and only the elimination of a column rounds, so
  what the loop refuses is stated for every function in the place of \<open>eliminateColumn\<close>.
\<close>

function forwardEliminationWith ::
  "(nat \<Rightarrow> nat \<Rightarrow> number list list \<Rightarrow> number list list) \<Rightarrow>
     nat \<Rightarrow> nat \<Rightarrow> number list list \<Rightarrow> error + number list list" where
  "forwardEliminationWith eliminate n col augmented =
     (if col < n then
        let maxRow = findPivot n col augmented;
            augmented = swapRows col maxRow augmented
        in if Math_abs (elem (augmented ! col) col) < threshold then Inl SingularMatrix
           else forwardEliminationWith eliminate n (col + 1) (eliminate n col augmented)
      else Inr augmented)"
  by pat_completeness auto
termination
  by (relation "measure (\<lambda>(eliminate, n, col, augmented). n - col)") auto

declare forwardEliminationWith.simps [simp del]

text \<open>
  The augmented matrix after the first \<open>col\<close> columns have been processed (pivot
  selection, swap, elimination) with the threshold check left out, and the pivot that is in
  place after the swap at column \<open>col\<close>.
\<close>

fun columnsDone ::
  "(nat \<Rightarrow> nat \<Rightarrow> number list list \<Rightarrow> number list list) \<Rightarrow>
     nat \<Rightarrow> nat \<Rightarrow> number list list \<Rightarrow> number list list" where
  "columnsDone eliminate n 0 aug = aug"
| "columnsDone eliminate n (Suc col) aug =
     (let a = columnsDone eliminate n col aug
      in eliminate n col (swapRows col (findPivot n col a) a))"

definition selectedPivot ::
  "(nat \<Rightarrow> nat \<Rightarrow> number list list \<Rightarrow> number list list) \<Rightarrow>
     nat \<Rightarrow> nat \<Rightarrow> number list list \<Rightarrow> number" where
  "selectedPivot eliminate n col aug =
     (let a = columnsDone eliminate n col aug
      in elem (swapRows col (findPivot n col a) a ! col) col)"

definition belowThreshold :: "number \<Rightarrow> bool" where
  "belowThreshold p = (Math_abs p < threshold)"

text \<open>
  Notions for the proof that a degenerate system is refused: the augmented matrix has \<open>n\<close>
  rows of \<open>n + 1\<close> entries; from row and column \<open>col\<close> on no entry is \<open>NaN\<close>; among
  the rows from \<open>col\<close> on one is zero in the columns \<open>col .. n - 1\<close>, or two agree there.
  \<open>exchange\<close> is the exchange of two row indices.
\<close>

definition wellFormed :: "nat \<Rightarrow> number list list \<Rightarrow> bool" where
  "wellFormed n aug \<longleftrightarrow> length aug = n \<and> (\<forall>i<n. length (aug ! i) = Suc n)"

definition finiteFrom :: "nat \<Rightarrow> nat \<Rightarrow> number list list \<Rightarrow> bool" where
  "finiteFrom n col aug \<longleftrightarrow>
     (\<forall>i j. col \<le> i \<and> i < n \<and> col \<le> j \<and> j \<le> n \<longrightarrow> aug ! i ! j \<noteq> NaN)"

definition zeroRow :: "nat \<Rightarrow> nat \<Rightarrow> number list list \<Rightarrow> bool" where
  "zeroRow n col aug \<longleftrightarrow>
     (\<exists>i. col \<le> i \<and> i < n \<and> (\<forall>j. col \<le> j \<and> j < n \<longrightarrow> aug ! i ! j = Num 0))"

definition equalRows :: "nat \<Rightarrow> nat \<Rightarrow> number list list \<Rightarrow> bool" where
  "equalRows n col aug \<longleftrightarrow>
     (\<exists>i i'. col \<le> i \<and> i < n \<and> col \<le> i' \<and> i' < n \<and> i \<noteq> i' \<and>
        (\<forall>j. col \<le> j \<and> j < n \<longrightarrow> aug ! i ! j = aug ! i' ! j))"

definition exchange :: "nat \<Rightarrow> nat \<Rightarrow> nat \<Rightarrow> nat" where
  "exchange c m i = (if i = m then c else if i = c then m else i)"

text \<open>
  Notions for the correctness of the solver in exact arithmetic: the real value of a finite
  number; an augmented matrix without \<open>NaN\<close>; zeros below the diagonal in the columns
  before \<open>col\<close>; non-zero diagonal entries in the rows before \<open>col\<close>; a vector that
  satisfies every equation of the augmented matrix; and one round of the back substitution
  (the body of its outer loop).
\<close>

fun val :: "number \<Rightarrow> real" where
  "val (Num x) = x"
| "val NaN = 0"

definition allFinite :: "nat \<Rightarrow> number list list \<Rightarrow> bool" where
  "allFinite n a \<longleftrightarrow> (\<forall>i j. i < n \<and> j \<le> n \<longrightarrow> a ! i ! j \<noteq> NaN)"

definition triangular :: "nat \<Rightarrow> nat \<Rightarrow> number list list \<Rightarrow> bool" where
  "triangular n col a \<longleftrightarrow> (\<forall>i j. i < n \<and> j < i \<and> j < col \<longrightarrow> a ! i ! j = Num 0)"

definition pivotsNonzero :: "nat \<Rightarrow> number list list \<Rightarrow> bool" where
  "pivotsNonzero col a \<longleftrightarrow> (\<forall>i<col. a ! i ! i \<noteq> Num 0)"

definition satisfies :: "nat \<Rightarrow> number list list \<Rightarrow> (nat \<Rightarrow> real) \<Rightarrow> bool" where
  "satisfies n a x \<longleftrightarrow> (\<forall>i<n. (\<Sum>j<n. val (a ! i ! j) * x j) = val (a ! i ! n))"

definition backStep :: "nat \<Rightarrow> number list list \<Rightarrow> nat \<Rightarrow> number list \<Rightarrow> number list" where
  "backStep n U i x =
     (let sum = fold (\<lambda>j sum. sum - elem (U ! i) j * elem x j) [i + 1..<n] (elem (U ! i) n)
      in x[i := sum / elem (U ! i) i])"

text \<open>The unordered pairs of indices below \<open>k\<close>.\<close>

definition pairs :: "nat \<Rightarrow> (nat \<times> nat) set" where
  "pairs k = {(i, j). i < j \<and> j < k}"

section \<open>Arithmetic of numbers\<close>

lemma add_Num0 [simp]: "x + Num 0 = x" "Num 0 + x = x"
  by (cases x; simp)+

lemma fold_plus_upt:
  fixes f :: "nat \<Rightarrow> number"
  shows "fold (\<lambda>i s. s + f i) [a..<b] acc = acc + sum f {a..<b}"
proof (induction b arbitrary: acc)
  case 0
  then show ?case by (simp add: zero_number_def)
next
  case (Suc b)
  show ?case
  proof (cases "a \<le> b")
    case True
    then show ?thesis
      using Suc by (simp add: sum.atLeastLessThan_Suc add.assoc)
  next
    case False
    then show ?thesis by (simp add: zero_number_def)
  qed
qed

lemma fold_plus_NaN: "fold (\<lambda>i sum. sum + g i) xs NaN = NaN"
  by (induction xs) simp_all

lemma sum_Num: "(\<Sum>i\<in>S. Num (f i)) = Num (\<Sum>i\<in>S. f i)"
proof (induction S rule: infinite_finite_induct)
  case (infinite A)
  then show ?case by (simp add: zero_number_def)
next
  case empty
  then show ?case by (simp add: zero_number_def)
next
  case (insert x F)
  then show ?case by simp
qed

lemma Num_val: "a \<noteq> NaN \<Longrightarrow> Num (val a) = a"
  by (cases a) simp_all

lemma val_times: "a \<noteq> NaN \<Longrightarrow> b \<noteq> NaN \<Longrightarrow> a * b = Num (val a * val b)"
  by (cases a; cases b) simp_all

lemma val_elim:
  assumes "a \<noteq> NaN" "b \<noteq> NaN" "p \<noteq> NaN" "p \<noteq> Num 0" "c \<noteq> NaN"
  shows "val (a - (b / p) * c) = val a - (val b / val p) * val c"
  using assms by (cases a; cases b; cases p; cases c) auto

lemma num_elim_finite:
  assumes "a \<noteq> NaN" "b \<noteq> NaN" "p \<noteq> NaN" "p \<noteq> Num 0" "c \<noteq> NaN"
  shows "a - (b / p) * c \<noteq> NaN"
  using assms by (cases a; cases b; cases p; cases c) auto

lemma num_elim_zero:
  assumes "p \<noteq> NaN" "p \<noteq> Num 0" "c \<noteq> NaN"
  shows "Num 0 - (Num 0 / p) * c = Num 0"
  using assms by (cases p; cases c) auto

lemma num_elim_self:
  assumes "p \<noteq> NaN" "p \<noteq> Num 0" "c \<noteq> NaN"
  shows "c - (p / p) * c = Num 0"
  using assms by (cases p; cases c) auto

lemma num_elim_pivot:
  assumes "a \<noteq> NaN" "p \<noteq> NaN" "p \<noteq> Num 0"
  shows "a - (a / p) * p = Num 0"
  using assms by (cases a; cases p) auto

lemma fold_minus_finite:
  assumes "s0 \<noteq> NaN" "\<forall>j. a \<le> j \<and> j < b \<longrightarrow> g j \<noteq> NaN"
  shows "fold (\<lambda>j s. s - g j) [a..<b] s0 = Num (val s0 - (\<Sum>j = a..<b. val (g j)))"
  using assms(2)
proof (induction b)
  case 0
  then show ?case using assms(1) by (simp add: Num_val)
next
  case (Suc b)
  show ?case
  proof (cases "a \<le> b")
    case True
    with Suc have IH: "fold (\<lambda>j s. s - g j) [a..<b] s0 = Num (val s0 - (\<Sum>j = a..<b. val (g j)))"
      and gb: "g b \<noteq> NaN"
      by auto
    from gb obtain y where "g b = Num y" by (cases "g b") auto
    with True IH show ?thesis
      by (simp add: sum.atLeastLessThan_Suc)
  next
    case False
    then show ?thesis using assms(1) by (simp add: Num_val)
  qed
qed

section \<open>The distance\<close>

lemma euclideanDistance_le:
  assumes "length p1 \<le> length p2"
  shows "euclideanDistance p1 p2 = Num (distance (length p1) p1 p2)"
proof -
  have "fold (\<lambda>i sum. let diff = Num (p1 ! i) - elemr p2 i in sum + diff * diff) [0..<n] acc
        = acc + (\<Sum>i<n. Num ((p1 ! i - p2 ! i)\<^sup>2))" if "n \<le> length p2" for n acc
    using that
  proof (induction n arbitrary: acc)
    case 0
    then show ?case by (simp add: zero_number_def)
  next
    case (Suc n)
    then show ?case by (simp add: elemr_def power2_eq_square add.assoc)
  qed
  from this [OF assms, of "Num 0"] show ?thesis
    by (simp add: euclideanDistance_def distance_def sum_Num sum_nonneg)
qed

lemma euclideanDistance_gt:
  assumes "length p2 < length p1"
  shows "euclideanDistance p1 p2 = NaN"
proof -
  have "[0..<length p2 + (length p1 - length p2)] =
        [0..<length p2] @ [length p2..<length p2 + (length p1 - length p2)]"
    by (rule upt_add_eq_append) simp
  then have split: "[0..<length p1] = [0..<length p2] @ length p2 # [Suc (length p2)..<length p1]"
    using assms by (simp add: upt_conv_Cons)
  show ?thesis
    by (simp add: euclideanDistance_def split elemr_def fold_plus_NaN Let_def)
qed

lemma euclideanDistance_self: "euclideanDistance p p = Num 0"
  by (simp add: euclideanDistance_le distance_def)

lemma distance_nonneg: "0 \<le> distance D x y"
  by (simp add: distance_def sum_nonneg)

lemma euclideanDistance_nonneg: "euclideanDistance p1 p2 = Num r \<Longrightarrow> 0 \<le> r"
  by (cases "length p1 \<le> length p2")
    (auto simp: euclideanDistance_le euclideanDistance_gt distance_nonneg)

section \<open>The kernels\<close>

lemma kernelOf_cases:
  "kernelOf func = Some k \<longleftrightarrow> (toLowerCase func, k) \<in> set kernelTags"
  by (auto simp: kernelOf_def kernelTags_def split: if_splits)

lemma getRbfFunction_unknown:
  "getRbfFunction eps func = Inl e \<longleftrightarrow> kernelOf func = None \<and> e = InvalidKernel"
  by (auto simp: getRbfFunction_def kernelOf_def kernelTags_def Let_def)

lemma getRbfFunction_known: "getRbfFunction eps func = Inr f \<Longrightarrow> kernelOf func \<noteq> None"
  using getRbfFunction_unknown [of eps func InvalidKernel] by auto

lemma one_plus_square_pos: "1 + (a::real) * a \<noteq> 0"
  using zero_le_square [of a] by linarith

lemma getRbfFunction_kernel:
  assumes "getRbfFunction (Num e) func = Inr nrm"
  shows "\<exists>k. kernelOf func = Some k \<and>
           (\<forall>x y r. euclideanDistance x y = Num r \<longrightarrow> nrm x y = Num (kernel_value k e r))"
proof -
  have pos: "0 < r" if "euclideanDistance x y = Num r" "r \<noteq> 0" for x y r
    using euclideanDistance_nonneg [OF that(1)] that(2) by simp
  show ?thesis
    using assms
    by (auto simp: getRbfFunction_def kernelOf_def kernelTags_def Let_def power2_eq_square
        one_plus_square_pos pos split: if_splits)
qed

lemma getRbfFunction_radial:
  "getRbfFunction eps func =
     (case kernelOf func of
        None \<Rightarrow> Inl InvalidKernel
      | Some k \<Rightarrow> Inr (\<lambda>x1 x2. radial k eps (euclideanDistance x1 x2)))"
  by (simp add: getRbfFunction_def kernelOf_def kernelTags_def Let_def)

lemma radial_real:
  assumes "0 \<le> r"
  shows "radial k (Num e) (Num r) = Num (kernel_value k e r)"
  using assms by (cases k) (auto simp: power2_eq_square one_plus_square_pos)

lemma radial_no_epsilon:
  assumes "k \<in> {ThinPlate, Linear, Squared, Quintic}" and "0 \<le> r"
  shows "radial k eps (Num r) = Num (kernel_value k e r)"
  using assms by (auto simp: power2_eq_square)

lemma toLowerCase_char_idem: "toLowerCase_char (toLowerCase_char c) = toLowerCase_char c"
  by (simp add: toLowerCase_char_def)

lemma toLowerCase_idem: "toLowerCase (toLowerCase s) = toLowerCase s"
  by (simp add: toLowerCase_def toLowerCase_char_idem)

lemmas solve_defs = solveLinearSystem_def augmentedMatrix_def elemr_def elem_def findPivot_def swapRows_def
  eliminateColumn_def eliminateRow_def threshold_def backSubstitution_def

lemmas fit_defs = constructor_def computeEpsilon_def computeWeights_def interpolationMatrix_def
  getRbfFunction_def toLowerCase_def toLowerCase_char_def Let_def

text \<open>
  C7. The thin-plate closure does not depend on the shape parameter: \<open>getRbfFunction\<close>
  returns the same function \<open>f\<close> for every \<open>eps\<close> (also for \<open>NaN\<close>). At distance 0 it
  returns 0, without taking a logarithm, and at every distance \<open>r > 0\<close> it returns
  \<open>r\<^sup>2 \<sqdot> ln r\<close>.
\<close>

theorem thin_plate_kernel:
  "\<exists>f. (\<forall>eps. getRbfFunction eps ''thin_plate'' = Inr f) \<and>
       (\<forall>x1 x2. (euclideanDistance x1 x2 = Num 0 \<longrightarrow> f x1 x2 = Num 0) \<and>
                (\<forall>r. 0 < r \<longrightarrow> euclideanDistance x1 x2 = Num r
                       \<longrightarrow> f x1 x2 = Num (r\<^sup>2 * ln r)))"
  by (rule exI [of _ "\<lambda>x1 x2. let r = euclideanDistance x1 x2 in
               if r = Num 0 then Num 0 else r * r * Math_log r"])
     (simp add: getRbfFunction_def toLowerCase_def toLowerCase_char_def power2_eq_square)

theorem thin_plate_kernel_witness:
  "\<exists>f. getRbfFunction NaN ''thin_plate'' = Inr f \<and> getRbfFunction (Num 3) ''thin_plate'' = Inr f \<and>
       euclideanDistance [0, 0] [0, 0] = Num 0 \<and> f [0, 0] [0, 0] = Num 0 \<and>
       (0::real) < 2 \<and> euclideanDistance [2, 0] [0, 0] = Num 2 \<and>
       f [2, 0] [0, 0] = Num (2\<^sup>2 * ln 2)"
proof -
  have d0: "euclideanDistance [0, 0] [0, 0] = Num 0"
    by (simp add: euclideanDistance_self)
  have d2: "euclideanDistance [2, 0] [0, 0] = Num 2"
    by (simp add: euclideanDistance_def elemr_def)
  from thin_plate_kernel obtain f where
    f: "\<And>eps. getRbfFunction eps ''thin_plate'' = Inr f"
       "\<And>x1 x2. euclideanDistance x1 x2 = Num 0 \<Longrightarrow> f x1 x2 = Num 0"
       "\<And>x1 x2 r. 0 < r \<Longrightarrow> euclideanDistance x1 x2 = Num r \<Longrightarrow> f x1 x2 = Num (r\<^sup>2 * ln r)"
    by blast
  show ?thesis
    using f(1) f(2) [OF d0] f(3) [OF _ d2] d0 d2 by (intro exI [of _ f]) simp
qed

section \<open>Errors of the construction\<close>

lemma forwardElimination_error:
  "forwardElimination n col aug = Inl e \<Longrightarrow> e = SingularMatrix"
proof (induction n col aug rule: forwardElimination.induct)
  case (1 n col augmented)
  then show ?case
    by (subst (asm) (2) forwardElimination.simps) (auto simp: Let_def split: if_splits)
qed

lemma solveLinearSystem_error: "solveLinearSystem A b = Inl e \<Longrightarrow> e = SingularMatrix"
  by (auto simp: solveLinearSystem_def Let_def split: sum.splits dest: forwardElimination_error)

lemma constructor_error_cases:
  "constructor points values func smth eps = Inl e \<Longrightarrow>
     (e = DimensionMismatch \<and> length points \<noteq> length values) \<or>
     (e = EmptyTrainingSet \<and> length points = length values \<and> points = []) \<or>
     (e = InvalidKernel \<and> length points = length values \<and> points \<noteq> [] \<and>
        kernelOf func = None) \<or>
     (e = SingularMatrix \<and> length points = length values \<and> points \<noteq> [] \<and>
        kernelOf func \<noteq> None)"
  by (auto simp: constructor_def computeWeights_def Let_def getRbfFunction_unknown
      split: if_splits sum.splits dest: solveLinearSystem_error getRbfFunction_known)

lemma constructor_compares_counts_only:
  assumes "length points = length values"
  shows "constructor points values func smth eps \<noteq> Inl DimensionMismatch"
  using assms constructor_error_cases [of points "values" func smth eps DimensionMismatch]
  by auto

text \<open>
  C3. The constructor compares the number of points with the number of values and nothing
  else: the lengths of the points are never compared. On the points \<open>[[0], [1, 2]]\<close> with
  the linear kernel and smoothing 1 the distance from the longer to the shorter point reads
  past the end and is \<open>NaN\<close>, no pivot is below the threshold, and the construction
  returns an interpolator whose weights are \<open>NaN\<close>; with the defaults (thin plate,
  smoothing 0) the same points end in \<open>SingularMatrix\<close>. Neither is the
  \<open>DimensionMismatch\<close> that the query path raises on a point of the wrong length.
\<close>

theorem constructor_mixed_dimensions:
  "constructor [[0], [1, 2]] [0, 1] ''linear'' 1 None =
     Inr \<lparr>di = [0, 1], weights = [NaN, NaN], nodes = [[0], [1, 2]], smooth = 1,
          epsilon = Num 1, norm' = euclideanDistance\<rparr> \<and>
   interpolatePoint
     \<lparr>di = [0, 1], weights = [NaN, NaN], nodes = [[0], [1, 2]], smooth = 1,
      epsilon = Num 1, norm' = euclideanDistance\<rparr> [0] = Inr NaN \<and>
   constructor [[0], [1, 2]] [0, 1] ''thin_plate'' 0 None = Inl SingularMatrix"
  by (simp add: fit_defs solve_defs euclideanDistance_def forwardElimination.simps
      interpolatePoint_def)

text \<open>
  C8 (as amended). The switch matches the lower-cased name against eight labels. A name
  whose lower-cased form is none of them makes the construction fail with \<open>InvalidKernel\<close>,
  provided the two earlier checks pass: as many values as points, and at least one point.
\<close>

theorem unknown_kernel:
  assumes "toLowerCase func \<notin> {''thin_plate'', ''multiquadric'', ''inverse_multiquadric'',
             ''inverse'', ''gaussian'', ''linear'', ''squared'', ''quintic''}"
      and "length points = length values" and "points \<noteq> []"
  shows "constructor points values func smth eps = Inl InvalidKernel"
  using assms by (auto simp: constructor_def getRbfFunction_def Let_def)

theorem unknown_kernel_witness:
  "toLowerCase ''Cubic'' \<notin> {''thin_plate'', ''multiquadric'', ''inverse_multiquadric'',
             ''inverse'', ''gaussian'', ''linear'', ''squared'', ''quintic''} \<and>
   length [[0::real, 0], [1, 1]] = length [0::real, 1] \<and> [[0::real, 0], [1, 1]] \<noteq> [] \<and>
   constructor [[0, 0], [1, 1]] [0, 1] ''Cubic'' 0 None = Inl InvalidKernel"
proof -
  have 1: "toLowerCase ''Cubic'' \<notin> {''thin_plate'', ''multiquadric'', ''inverse_multiquadric'',
             ''inverse'', ''gaussian'', ''linear'', ''squared'', ''quintic''}"
    by (simp add: toLowerCase_def toLowerCase_char_def)
  have 2: "length [[0::real, 0], [1, 1]] = length [0::real, 1]" by simp
  have 3: "[[0::real, 0], [1, 1]] \<noteq> []" by simp
  show ?thesis using 1 2 3 unknown_kernel [OF 1 2 3, of 0 None] by simp
qed

text \<open>
  Without the provisos the statement fails: with an unknown name the construction from no points ends in
  \<open>EmptyTrainingSet\<close> and the construction from one point and two values in
  \<open>DimensionMismatch\<close>, and the names \<open>inverse\<close> and \<open>GAUSSIAN\<close>, neither of them
  one of the seven names, are accepted.
\<close>

theorem unknown_kernel_counterexample:
  "constructor [] [] ''cubic'' 0 None = Inl EmptyTrainingSet \<and>
   constructor [[0]] [1, 2] ''cubic'' 0 None = Inl DimensionMismatch \<and>
   constructor [[0]] [1] ''inverse'' 0 (Some 1) \<noteq> Inl InvalidKernel \<and>
   constructor [[0]] [1] ''GAUSSIAN'' 0 (Some 1) \<noteq> Inl InvalidKernel"
  by (simp add: fit_defs solve_defs euclideanDistance_self forwardElimination.simps)

text \<open>
  C10. The name is lower-cased before it is matched, so a name and its lower-cased form
  select the same closure and build the same interpolator; \<open>inverse\<close> selects what
  \<open>inverse_multiquadric\<close> selects. Two constructions that succeed: \<open>THIN_PLATE\<close> builds
  the thin-plate interpolator and \<open>inverse\<close> the inverse multiquadric one.
\<close>

theorem kernel_name_resolution:
  "getRbfFunction eps func = getRbfFunction eps (toLowerCase func) \<and>
   getRbfFunction eps ''inverse'' = getRbfFunction eps ''inverse_multiquadric'' \<and>
   constructor points values func smth e = constructor points values (toLowerCase func) smth e \<and>
   constructor points values ''THIN_PLATE'' smth e =
     constructor points values ''thin_plate'' smth e \<and>
   constructor points values ''inverse'' smth e =
     constructor points values ''inverse_multiquadric'' smth e \<and>
   constructor [[0], [1]] [3, 4] ''THIN_PLATE'' 1 None =
     Inr \<lparr>di = [3, 4], weights = [Num 3, Num 4], nodes = [[0], [1]], smooth = 1,
          epsilon = Num 1,
          norm' = (\<lambda>x1 x2. let r = euclideanDistance x1 x2 in
                    if r = Num 0 then Num 0 else r * r * Math_log r)\<rparr> \<and>
   constructor [[0]] [3] ''inverse'' 0 (Some 2) =
     Inr \<lparr>di = [3], weights = [Num 3], nodes = [[0]], smooth = 0, epsilon = Num 2,
          norm' = (\<lambda>x1 x2. let r = euclideanDistance x1 x2 in
                    Num 1 / Math_sqrt (Num 1 + pow (Num 2 * r) 2))\<rparr>"
proof -
  have low: "getRbfFunction eps' f = getRbfFunction eps' (toLowerCase f)" for eps' f
    by (simp add: getRbfFunction_def toLowerCase_idem)
  have inv: "getRbfFunction eps' ''inverse'' = getRbfFunction eps' ''inverse_multiquadric''"
    for eps'
    by (simp add: getRbfFunction_def toLowerCase_def toLowerCase_char_def)
  have thin: "getRbfFunction eps' ''THIN_PLATE'' = getRbfFunction eps' ''thin_plate''" for eps'
    by (simp add: getRbfFunction_def toLowerCase_def toLowerCase_char_def)
  have c1: "constructor points values func smth e =
            constructor points values (toLowerCase func) smth e"
    by (simp add: constructor_def low [symmetric])
  have c2: "constructor points values ''THIN_PLATE'' smth e =
            constructor points values ''thin_plate'' smth e"
    by (simp add: constructor_def thin)
  have c3: "constructor points values ''inverse'' smth e =
            constructor points values ''inverse_multiquadric'' smth e"
    by (simp add: constructor_def inv)
  have e1: "constructor [[0], [1]] [3, 4] ''THIN_PLATE'' 1 None =
     Inr \<lparr>di = [3, 4], weights = [Num 3, Num 4], nodes = [[0], [1]], smooth = 1,
          epsilon = Num 1,
          norm' = (\<lambda>x1 x2. let r = euclideanDistance x1 x2 in
                    if r = Num 0 then Num 0 else r * r * Math_log r)\<rparr>"
    by (simp add: fit_defs solve_defs euclideanDistance_def forwardElimination.simps)
  have e2: "constructor [[0]] [3] ''inverse'' 0 (Some 2) =
     Inr \<lparr>di = [3], weights = [Num 3], nodes = [[0]], smooth = 0, epsilon = Num 2,
          norm' = (\<lambda>x1 x2. let r = euclideanDistance x1 x2 in
                    Num 1 / Math_sqrt (Num 1 + pow (Num 2 * r) 2))\<rparr>"
    by (simp add: fit_defs solve_defs euclideanDistance_def forwardElimination.simps)
  show ?thesis
    using low inv c1 c2 c3 e1 e2 by blast
qed

section \<open>Loops that fill an array\<close>

lemma fold_update_length [simp]:
  "length (fold (\<lambda>k ys. ys[k := g k ys]) ks xs) = length xs"
  by (induction ks arbitrary: xs) simp_all

lemma fold_update_nth:
  assumes "i < length xs"
  shows "fold (\<lambda>k ys. ys[k := g k (ys ! k)]) [a..<b] xs ! i =
         (if a \<le> i \<and> i < b then g i (xs ! i) else xs ! i)"
proof (induction b)
  case 0
  then show ?case by simp
next
  case (Suc b)
  show ?case
  proof (cases "a \<le> b")
    case True
    with Suc assms show ?thesis
      by (auto simp: nth_list_update less_Suc_eq)
  next
    case False
    then show ?thesis by auto
  qed
qed

section \<open>The matrix\<close>

lemma interpolationMatrix_length [simp]:
  "length (interpolationMatrix nds smth nrm) = length nds"
  by (simp add: interpolationMatrix_def Let_def)

lemma matrix_row:
  assumes "i < n"
  shows "(let row = fold (\<lambda>j row. row[j := f j]) [0..<n] (replicate n (Num 0))
          in row[i := elem row i + Num s]) =
         map (\<lambda>j. if j = i then f i + Num s else f j) [0..<n]"
proof -
  have len: "length (fold (\<lambda>j row. row[j := f j]) [0..<n] (replicate n (Num 0))) = n"
    using fold_update_length [of "\<lambda>j row. f j"] by simp
  have nth: "fold (\<lambda>j row. row[j := f j]) [0..<n] (replicate n (Num 0)) ! j = f j"
    if "j < n" for j
    using fold_update_nth [of j "replicate n (Num 0)" "\<lambda>j x. f j" 0 n] that by simp
  show ?thesis
    using assms by (auto simp: Let_def list_eq_iff_nth_eq len nth elem_def nth_list_update)
qed

lemma interpolationMatrix_row:
  assumes "i < length nds"
  shows "interpolationMatrix nds smth nrm ! i =
         map (\<lambda>j. if j = i then nrm (nds ! i) (nds ! i) + Num smth else nrm (nds ! i) (nds ! j))
           [0..<length nds]"
proof -
  let ?n = "length nds"
  let ?g = "\<lambda>i r. let row = fold (\<lambda>j row. row[j := nrm (nds ! i) (nds ! j)]) [0..<?n] r
                  in row[i := elem row i + Num smth]"
  have "interpolationMatrix nds smth nrm ! i = ?g i (replicate ?n (replicate ?n (Num 0)) ! i)"
    unfolding interpolationMatrix_def Let_def
    using fold_update_nth [of i "replicate ?n (replicate ?n (Num 0))" "\<lambda>i r. ?g i r" 0 ?n] assms
    by (simp add: Let_def)
  then show ?thesis
    using assms matrix_row [OF assms, of "\<lambda>j. nrm (nds ! i) (nds ! j)" smth] by simp
qed

lemma interpolationMatrix_entry:
  assumes "i < length nds" "j < length nds"
  shows "interpolationMatrix nds smth nrm ! i ! j =
         (if j = i then nrm (nds ! i) (nds ! i) + Num smth else nrm (nds ! i) (nds ! j))"
  using assms by (simp add: interpolationMatrix_row)

lemma augmentedMatrix_length [simp]: "length (augmentedMatrix A b) = length A"
  by (simp add: augmentedMatrix_def)

lemma augmentedMatrix_nth:
  "i < length A \<Longrightarrow> augmentedMatrix A b ! i = A ! i @ [elemr b i]"
  by (simp add: augmentedMatrix_def)

section \<open>The default shape parameter\<close>

lemma pairs_Sigma: "pairs k = (SIGMA i:{..<k}. {Suc i..<k})"
  by (auto simp: pairs_def)

lemma finite_pairs [simp]: "finite (pairs k)"
  by (simp add: pairs_Sigma)

lemma fold_pair_inner:
  fixes f :: "nat \<Rightarrow> number"
  shows "fold (\<lambda>j (s, c). (s + f j, Suc c)) [a..<b] (s0, c0 :: nat) =
         (s0 + sum f {a..<b}, c0 + (b - a))"
proof (induction b arbitrary: s0 c0)
  case 0
  then show ?case by (simp add: zero_number_def)
next
  case (Suc b)
  show ?case
  proof (cases "a \<le> b")
    case True
    then show ?thesis
      using Suc by (simp add: sum.atLeastLessThan_Suc add.assoc Suc_diff_le)
  next
    case False
    then show ?thesis by (simp add: zero_number_def)
  qed
qed

lemma fold_pair_outer:
  fixes d :: "nat \<Rightarrow> nat \<Rightarrow> number"
  shows "fold (\<lambda>i. fold (\<lambda>j (s, c). (s + d i j, Suc c)) [Suc i..<k]) [0..<m] (s0, c0 :: nat) =
         (s0 + (\<Sum>i<m. \<Sum>j\<in>{Suc i..<k}. d i j), c0 + (\<Sum>i<m. k - Suc i))"
proof (induction m)
  case 0
  then show ?case by (simp add: zero_number_def)
next
  case (Suc m)
  then show ?case by (simp add: fold_pair_inner add.assoc)
qed

lemma card_pairs: "card (pairs k) = (\<Sum>i<k. k - Suc i)"
  by (simp add: pairs_Sigma)

lemma sum_pairs:
  fixes d :: "nat \<Rightarrow> nat \<Rightarrow> number"
  shows "(\<Sum>i<k. \<Sum>j\<in>{Suc i..<k}. d i j) = (\<Sum>(i, j)\<in>pairs k. d i j)"
  by (simp add: pairs_Sigma sum.Sigma)

lemma card_pairs_pos:
  assumes "2 \<le> k"
  shows "0 < card (pairs k)"
proof -
  from assms have "(0, 1) \<in> pairs k" by (auto simp: pairs_def)
  then show ?thesis using finite_pairs by (metis card_gt_0_iff empty_iff)
qed

lemma computeEpsilon_eq:
  "computeEpsilon points =
     (if length points < 2 then Num 1
      else (\<Sum>(i, j)\<in>pairs (min (length points) 100).
              euclideanDistance (points ! i) (points ! j))
             / Num (real (card (pairs (min (length points) 100)))))"
proof (cases "length points < 2")
  case True
  then show ?thesis by (simp add: computeEpsilon_def)
next
  case False
  then have "2 \<le> min (length points) 100" by simp
  from card_pairs_pos [OF this] False show ?thesis
    by (simp add: computeEpsilon_def Let_def fold_pair_outer sum_pairs card_pairs [symmetric])
qed

lemma sum_pairs_Num:
  "(\<Sum>(i, j)\<in>S. Num (f i j)) = Num (\<Sum>(i, j)\<in>S. f i j)"
  using sum_Num [of "\<lambda>(i, j). f i j" S] by (simp add: case_prod_unfold)

lemma computeEpsilon_real:
  assumes "\<forall>p\<in>set points. length p = D"
  shows "computeEpsilon points =
     Num (if length points < 2 then 1
          else (\<Sum>(i, j)\<in>pairs (min (length points) 100). distance D (points ! i) (points ! j))
                 / real (card (pairs (min (length points) 100))))"
proof (cases "length points < 2")
  case True
  then show ?thesis by (simp add: computeEpsilon_eq)
next
  case False
  let ?k = "min (length points) 100"
  have pos: "0 < card (pairs ?k)"
    using False by (intro card_pairs_pos) simp
  have "euclideanDistance (points ! i) (points ! j) = Num (distance D (points ! i) (points ! j))"
    if "(i, j) \<in> pairs ?k" for i j
  proof -
    from that have "i < length points" "j < length points" by (auto simp: pairs_def)
    with assms have "length (points ! i) = D" "length (points ! j) = D" by auto
    then show ?thesis by (simp add: euclideanDistance_le)
  qed
  then have "(\<Sum>(i, j)\<in>pairs ?k. euclideanDistance (points ! i) (points ! j)) =
             (\<Sum>(i, j)\<in>pairs ?k. Num (distance D (points ! i) (points ! j)))"
    by (intro sum.cong) auto
  moreover from pos have "pairs ?k \<noteq> {}" by auto
  ultimately show ?thesis
    using False by (simp add: computeEpsilon_eq sum_pairs_Num)
qed

lemma resolved_epsilon_finite:
  assumes "\<forall>p\<in>set points. length p = D"
  shows "\<exists>e. (case eps of None \<Rightarrow> computeEpsilon points | Some x \<Rightarrow> Num x) = Num e"
  using computeEpsilon_real [OF assms] by (cases eps) auto

section \<open>The fitted interpolator\<close>

lemma backSubstitution_length [simp]: "length (backSubstitution n aug) = n"
  by (simp add: backSubstitution_def Let_def)

lemma solveLinearSystem_length:
  "solveLinearSystem A b = Inr w \<Longrightarrow> length w = length A"
  by (auto simp: solveLinearSystem_def Let_def split: sum.splits)

lemma constructor_fields:
  assumes "constructor points values func smth eps = Inr this"
  shows "length points = length values" "points \<noteq> []"
    "nodes this = points" "di this = values" "smooth this = smth"
    "epsilon this = (case eps of None \<Rightarrow> computeEpsilon points | Some x \<Rightarrow> Num x)"
    "getRbfFunction (epsilon this) func = Inr (norm' this)"
    "solveLinearSystem (interpolationMatrix points smth (norm' this)) values = Inr (weights this)"
    "length (weights this) = length points"
proof -
  show "length points = length values" "points \<noteq> []"
    "nodes this = points" "di this = values" "smooth this = smth"
    "epsilon this = (case eps of None \<Rightarrow> computeEpsilon points | Some x \<Rightarrow> Num x)"
    "getRbfFunction (epsilon this) func = Inr (norm' this)"
    and sol: "solveLinearSystem (interpolationMatrix points smth (norm' this)) values = Inr (weights this)"
    using assms
    by (auto simp: constructor_def computeWeights_def Let_def split: if_splits sum.splits)
  from solveLinearSystem_length [OF sol] show "length (weights this) = length points" by simp
qed

lemma constructor_norm:
  assumes "constructor points values func smth eps = Inr this"
  shows "\<exists>k. kernelOf func = Some k \<and>
             norm' this = (\<lambda>x1 x2. radial k (epsilon this) (euclideanDistance x1 x2))"
  using constructor_fields(7) [OF assms]
  by (auto simp: getRbfFunction_radial split: option.splits)

lemma fitted_kernel:
  assumes "constructor points values func smth eps = Inr this"
      and "\<forall>p\<in>set points. length p = D"
  shows "\<exists>k e. kernelOf func = Some k \<and> epsilon this = Num e \<and>
           norm' this = (\<lambda>x1 x2. radial k (Num e) (euclideanDistance x1 x2))"
proof -
  from constructor_norm [OF assms(1)] obtain k where
    k: "kernelOf func = Some k"
       "norm' this = (\<lambda>x1 x2. radial k (epsilon this) (euclideanDistance x1 x2))"
    by blast
  obtain e where "epsilon this = Num e"
    using constructor_fields(6) [OF assms(1)] computeEpsilon_real [OF assms(2)]
    by (cases eps) auto
  with k show ?thesis by simp
qed

lemma interpolatePoint_sum:
  assumes "length (weights this) = length (nodes this)"
  shows "interpolatePoint this q =
     (if length q \<noteq> length (nodes this ! 0) then Inl DimensionMismatch
      else Inr (\<Sum>i<length (nodes this). weights this ! i * norm' this q (nodes this ! i)))"
proof -
  have "(\<Sum>i = 0..<length (nodes this). elem (weights this) i * norm' this q (nodes this ! i)) =
        (\<Sum>i<length (nodes this). weights this ! i * norm' this q (nodes this ! i))"
    using assms by (intro sum.cong) (auto simp: elem_def)
  then show ?thesis
    by (simp add: interpolatePoint_def fold_plus_upt)
qed


text \<open>
  C6. \<open>computeEpsilon\<close> returns 1 for fewer than two points and otherwise the sum of
  the distances over all pairs \<open>i < j\<close> among the first \<open>min N 100\<close> points divided by the
  number of these pairs; for points of one dimension \<open>D\<close> this is the mean of the real
  Euclidean distances. When the caller passes no shape parameter and the construction
  succeeds, this value is the \<open>epsilon\<close> of the interpolator and the one its kernel
  closure computes with. Evaluation is a function of the interpolator and the query and
  assigns no field.
\<close>

theorem default_epsilon:
  "computeEpsilon points =
     (if length points < 2 then Num 1
      else (\<Sum>(i, j)\<in>pairs (min (length points) 100).
              euclideanDistance (points ! i) (points ! j))
             / Num (real (card (pairs (min (length points) 100))))) \<and>
   ((\<forall>p\<in>set points. length p = D) \<longrightarrow>
      computeEpsilon points =
        Num (if length points < 2 then 1
             else (\<Sum>(i, j)\<in>pairs (min (length points) 100).
                     distance D (points ! i) (points ! j))
                    / real (card (pairs (min (length points) 100))))) \<and>
   (constructor points values func smth None = Inr this \<longrightarrow>
      epsilon this = computeEpsilon points \<and>
      (\<exists>k. kernelOf func = Some k \<and>
           norm' this = (\<lambda>x1 x2. radial k (computeEpsilon points) (euclideanDistance x1 x2))))"
proof -
  have "epsilon this = computeEpsilon points \<and>
      (\<exists>k. kernelOf func = Some k \<and>
           norm' this = (\<lambda>x1 x2. radial k (computeEpsilon points) (euclideanDistance x1 x2)))"
    if "constructor points values func smth None = Inr this"
    using constructor_fields(6) [OF that] constructor_norm [OF that] by simp
  then show ?thesis
    using computeEpsilon_eq [of points] computeEpsilon_real [of points D] by blast
qed

theorem default_epsilon_witness:
  "\<exists>this. constructor [[0], [4]] [1, 2] ''linear'' 1 None = Inr this \<and>
     list_all (\<lambda>p. length p = 1) [[0], [4::real]] \<and>
     computeEpsilon [[0], [4]] =
        Num (if length [[0], [4::real]] < 2 then 1
             else (\<Sum>(i, j)\<in>pairs (min (length [[0], [4::real]]) 100).
                     distance 1 ([[0], [4]] ! i) ([[0], [4]] ! j))
                    / real (card (pairs (min (length [[0], [4::real]]) 100)))) \<and>
     epsilon this = computeEpsilon [[0], [4]] \<and>
     computeEpsilon [[0], [4]] = Num 4 \<and> computeEpsilon [[7, 7]] = Num 1"
proof -
  let ?M = "\<lparr>di = [1, 2], weights = [Num (7 / 15), Num (2 / 15)], nodes = [[0], [4]],
          smooth = 1, epsilon = Num 4, norm' = euclideanDistance\<rparr>"
  have fit: "constructor [[0], [4]] [1, 2] ''linear'' 1 None = Inr ?M"
    by (simp add: fit_defs solve_defs euclideanDistance_def forwardElimination.simps)
  have dims: "\<forall>p\<in>set [[0], [4::real]]. length p = 1"
    by simp
  have val: "computeEpsilon [[0], [4]] = Num 4" "computeEpsilon [[7, 7]] = Num 1"
    by (simp_all add: computeEpsilon_def euclideanDistance_def elemr_def)
  from default_epsilon [of "[[0], [4]]" 1 "[1, 2]" "''linear''" 1 ?M] fit dims
  have "computeEpsilon [[0], [4]] =
        Num (if length [[0], [4::real]] < 2 then 1
             else (\<Sum>(i, j)\<in>pairs (min (length [[0], [4::real]]) 100).
                     distance 1 ([[0], [4]] ! i) ([[0], [4]] ! j))
                    / real (card (pairs (min (length [[0], [4::real]]) 100))))"
    and "epsilon ?M = computeEpsilon [[0], [4]]"
    by blast+
  with fit val show ?thesis
    by auto
qed



section \<open>Rows and columns of the elimination\<close>

lemma fold_select: "fold (\<lambda>row m. if P row m then row else m) xs m0 \<in> insert m0 (set xs)"
  by (induction xs arbitrary: m0) (auto split: if_splits)

lemma findPivot_range:
  assumes "col < n"
  shows "col \<le> findPivot n col aug" "findPivot n col aug < n"
proof -
  have "findPivot n col aug \<in> insert col (set [col + 1..<n])"
    unfolding findPivot_def by (rule fold_select)
  with assms show "col \<le> findPivot n col aug" "findPivot n col aug < n"
    by auto
qed

lemma swapRows_length [simp]: "length (swapRows c m aug) = length aug"
  by (simp add: swapRows_def)

lemma swapRows_nth:
  assumes "c < length aug" "m < length aug" "i < length aug"
  shows "swapRows c m aug ! i = (if i = m then aug ! c else if i = c then aug ! m else aug ! i)"
  using assms by (simp add: swapRows_def nth_list_update)

lemma swapRows_exchange:
  assumes "c < length aug" "m < length aug" "i < length aug"
  shows "swapRows c m aug ! exchange c m i = aug ! i"
  using assms by (auto simp: swapRows_nth exchange_def)

lemma exchange_range:
  assumes "col \<le> m" "m < n" "col \<le> i" "i < n"
  shows "col \<le> exchange col m i" "exchange col m i < n"
  using assms by (auto simp: exchange_def)

lemma exchange_inj: "exchange c m i = exchange c m i' \<Longrightarrow> i = i'"
  by (auto simp: exchange_def split: if_splits)

lemma eliminateRow_length [simp]: "length (eliminateRow n col p r) = length r"
  by (simp add: eliminateRow_def Let_def)

lemma eliminate_fold_nth:
  assumes "b \<le> length r"
  shows "\<forall>j<length r. fold (\<lambda>j r. r[j := elem r j - f * elem p j]) [a..<b] r ! j =
         (if a \<le> j \<and> j < b then r ! j - f * elem p j else r ! j)"
  using assms
proof (induction b)
  case 0
  then show ?case by simp
next
  case (Suc b)
  let ?F = "fold (\<lambda>j r. r[j := elem r j - f * elem p j]) [a..<b] r"
  have len: "length ?F = length r"
    using fold_update_length [of "\<lambda>j r. elem r j - f * elem p j"] by simp
  show ?case
  proof (cases "a \<le> b")
    case True
    from Suc have IH: "\<forall>j<length r. ?F ! j =
        (if a \<le> j \<and> j < b then r ! j - f * elem p j else r ! j)"
      and b: "b < length r"
      by auto
    from IH b have "?F ! b = r ! b" by simp
    with True IH b len show ?thesis
      by (auto simp: nth_list_update elem_def less_Suc_eq)
  next
    case False
    then show ?thesis by auto
  qed
qed

lemma eliminateRow_nth:
  assumes "length r = Suc n" "j \<le> n"
  shows "eliminateRow n col p r ! j =
         (if col \<le> j then r ! j - (elem r col / elem p col) * elem p j else r ! j)"
  using eliminate_fold_nth [of "n + 1" r "elem r col / elem p col" p col] assms
  by (simp add: eliminateRow_def Let_def)

lemma eliminateColumn_length [simp]: "length (eliminateColumn n col aug) = length aug"
  by (simp add: eliminateColumn_def)

lemma eliminateColumn_fold_nth:
  assumes "b \<le> length aug"
  shows "\<forall>i<length aug.
           fold (\<lambda>row aug. aug[row := eliminateRow n col (aug ! col) (aug ! row)])
             [col + 1..<b] aug ! i =
           (if col < i \<and> i < b then eliminateRow n col (aug ! col) (aug ! i) else aug ! i)"
  using assms
proof (induction b)
  case 0
  then show ?case by simp
next
  case (Suc b)
  let ?F = "fold (\<lambda>row aug. aug[row := eliminateRow n col (aug ! col) (aug ! row)])
              [col + 1..<b] aug"
  have len: "length ?F = length aug"
    using fold_update_length [of "\<lambda>row aug. eliminateRow n col (aug ! col) (aug ! row)"] by simp
  show ?case
  proof (cases "col + 1 \<le> b")
    case True
    from Suc have IH: "\<forall>i<length aug. ?F ! i =
        (if col < i \<and> i < b then eliminateRow n col (aug ! col) (aug ! i) else aug ! i)"
      and b: "b < length aug"
      by auto
    from IH b True have "?F ! b = aug ! b" "?F ! col = aug ! col" by simp_all
    with True IH b len show ?thesis
      by (auto simp: nth_list_update less_Suc_eq)
  next
    case False
    then show ?thesis by auto
  qed
qed

lemma eliminateColumn_nth:
  assumes "length aug = n" "i < n"
  shows "eliminateColumn n col aug ! i =
         (if col < i then eliminateRow n col (aug ! col) (aug ! i) else aug ! i)"
  using eliminateColumn_fold_nth [of n aug n col] assms
  by (simp add: eliminateColumn_def)

lemma eliminateColumn_entry:
  assumes "wellFormed n aug" "i < n" "j \<le> n" "col < n"
  shows "eliminateColumn n col aug ! i ! j =
         (if col < i \<and> col \<le> j
          then aug ! i ! j - (aug ! i ! col / aug ! col ! col) * aug ! col ! j
          else aug ! i ! j)"
  using assms
  by (auto simp: wellFormed_def eliminateColumn_nth eliminateRow_nth elem_def)

lemma wellFormed_swapRows:
  assumes "wellFormed n aug" "c < n" "m < n"
  shows "wellFormed n (swapRows c m aug)"
  using assms by (auto simp: wellFormed_def swapRows_nth)

lemma wellFormed_eliminateColumn:
  assumes "wellFormed n aug"
  shows "wellFormed n (eliminateColumn n col aug)"
  using assms by (auto simp: wellFormed_def eliminateColumn_nth)

lemma belowThreshold_zero: "belowThreshold (Num 0)"
  by (simp add: belowThreshold_def threshold_def)

section \<open>The solver in exact arithmetic\<close>

lemma allFinite_swapRows:
  assumes "wellFormed n a" "allFinite n a" "c < n" "m < n"
  shows "allFinite n (swapRows c m a)"
  using assms by (auto simp: allFinite_def wellFormed_def swapRows_nth)

lemma triangular_swapRows:
  assumes "wellFormed n a" "triangular n col a" "col \<le> m" "m < n"
  shows "triangular n col (swapRows col m a)"
  using assms by (auto simp: triangular_def wellFormed_def swapRows_nth)

lemma pivotsNonzero_swapRows:
  assumes "wellFormed n a" "pivotsNonzero col a" "col \<le> m" "m < n"
  shows "pivotsNonzero col (swapRows col m a)"
  using assms by (auto simp: pivotsNonzero_def wellFormed_def swapRows_nth)

lemma satisfies_swapRows:
  assumes "wellFormed n a" "c < n" "m < n" "satisfies n (swapRows c m a) x"
  shows "satisfies n a x"
  unfolding satisfies_def
proof (intro allI impI)
  fix i assume i: "i < n"
  have "swapRows c m a ! exchange c m i = a ! i"
    using assms(1-3) i by (intro swapRows_exchange) (auto simp: wellFormed_def)
  moreover have "exchange c m i < n"
    using assms(2,3) i by (auto simp: exchange_def)
  ultimately show "(\<Sum>j<n. val (a ! i ! j) * x j) = val (a ! i ! n)"
    using assms(4) unfolding satisfies_def by metis
qed

lemma solve_step:
  assumes wf: "wellFormed n a" and fin: "allFinite n a" and tri: "triangular n col a"
      and col: "col < n" and nb: "\<not> belowThreshold (elem (a ! col) col)"
  shows "allFinite n (eliminateColumn n col a)"
    and "triangular n (Suc col) (eliminateColumn n col a)"
    and "pivotsNonzero col a \<Longrightarrow> pivotsNonzero (Suc col) (eliminateColumn n col a)"
    and "satisfies n (eliminateColumn n col a) x \<Longrightarrow> satisfies n a x"
proof -
  let ?p = "a ! col ! col"
  let ?e = "eliminateColumn n col a"
  have pe: "elem (a ! col) col = ?p"
    using wf col by (simp add: elem_def wellFormed_def)
  have afin: "a ! i ! j \<noteq> NaN" if "i < n" "j \<le> n" for i j
    using fin that by (simp add: allFinite_def)
  have pfin: "?p \<noteq> NaN"
    using col by (simp add: afin)
  have pnz: "?p \<noteq> Num 0"
    using nb pe belowThreshold_zero by auto
  have entry: "?e ! i ! j =
      (if col < i \<and> col \<le> j then a ! i ! j - (a ! i ! col / ?p) * a ! col ! j else a ! i ! j)"
    if "i < n" "j \<le> n" for i j
    using that wf col by (simp add: eliminateColumn_entry)
  show "allFinite n ?e"
    unfolding allFinite_def
  proof (intro allI impI)
    fix i j assume h: "i < n \<and> j \<le> n"
    then show "?e ! i ! j \<noteq> NaN"
      using entry [of i j] afin [of i j] afin [of i col] afin [of col j] col pfin pnz
      by (simp add: num_elim_finite)
  qed
  show "triangular n (Suc col) ?e"
    unfolding triangular_def
  proof (intro allI impI)
    fix i j assume h: "i < n \<and> j < i \<and> j < Suc col"
    show "?e ! i ! j = Num 0"
    proof (cases "j = col")
      case True
      with h have "?e ! i ! j = a ! i ! col - (a ! i ! col / ?p) * ?p"
        using entry [of i j] col by simp
      with h col pfin pnz show ?thesis
        by (simp add: num_elim_pivot afin)
    next
      case False
      with h have "j < col" by simp
      with h have "?e ! i ! j = a ! i ! j"
        using entry [of i j] by simp
      with tri h \<open>j < col\<close> show ?thesis
        by (simp add: triangular_def)
    qed
  qed
  show "pivotsNonzero (Suc col) ?e" if "pivotsNonzero col a"
    unfolding pivotsNonzero_def
  proof (intro allI impI)
    fix i assume "i < Suc col"
    then have "?e ! i ! i = a ! i ! i"
      using entry [of i i] col by simp
    with that pnz \<open>i < Suc col\<close> show "?e ! i ! i \<noteq> Num 0"
      by (cases "i = col") (auto simp: pivotsNonzero_def)
  qed
  show "satisfies n a x" if sat: "satisfies n ?e x"
    unfolding satisfies_def
  proof (intro allI impI)
    fix i assume i: "i < n"
    show "(\<Sum>j<n. val (a ! i ! j) * x j) = val (a ! i ! n)"
    proof (cases "col < i")
      case False
      with i have same: "?e ! i ! j = a ! i ! j" if "j \<le> n" for j
        using entry [of i j] that by simp
      have "(\<Sum>j<n. val (?e ! i ! j) * x j) = (\<Sum>j<n. val (a ! i ! j) * x j)"
        by (intro sum.cong) (auto simp: same)
      moreover have "(\<Sum>j<n. val (?e ! i ! j) * x j) = val (?e ! i ! n)"
        using sat i by (simp add: satisfies_def)
      ultimately show ?thesis
        using same [of n] by simp
    next
      case True
      let ?f = "val (a ! i ! col) / val ?p"
      have row: "val (?e ! i ! j) = val (a ! i ! j) - ?f * val (a ! col ! j)" if "j \<le> n" for j
      proof (cases "col \<le> j")
        case True
        with \<open>col < i\<close> i that have "?e ! i ! j = a ! i ! j - (a ! i ! col / ?p) * a ! col ! j"
          using entry [of i j] by simp
        with that i col pfin pnz show ?thesis
          by (simp add: val_elim afin)
      next
        case False
        with tri col have "a ! col ! j = Num 0"
          by (simp add: triangular_def)
        moreover from False i that have "?e ! i ! j = a ! i ! j"
          using entry [of i j] by simp
        ultimately show ?thesis by simp
      qed
      have pivrow: "(\<Sum>j<n. val (a ! col ! j) * x j) = val (a ! col ! n)"
      proof -
        have same: "?e ! col ! j = a ! col ! j" if "j \<le> n" for j
          using entry [of col j] col that by simp
        have "(\<Sum>j<n. val (?e ! col ! j) * x j) = (\<Sum>j<n. val (a ! col ! j) * x j)"
          by (intro sum.cong) (auto simp: same)
        moreover have "(\<Sum>j<n. val (?e ! col ! j) * x j) = val (?e ! col ! n)"
          using sat col by (simp add: satisfies_def)
        ultimately show ?thesis
          using same [of n] by simp
      qed
      have "(\<Sum>j<n. val (?e ! i ! j) * x j) = val (?e ! i ! n)"
        using sat i by (simp add: satisfies_def)
      moreover have "(\<Sum>j<n. val (?e ! i ! j) * x j) =
            (\<Sum>j<n. val (a ! i ! j) * x j) - ?f * (\<Sum>j<n. val (a ! col ! j) * x j)"
      proof -
        have "(\<Sum>j<n. val (?e ! i ! j) * x j) =
              (\<Sum>j<n. val (a ! i ! j) * x j - ?f * (val (a ! col ! j) * x j))"
          by (intro sum.cong) (auto simp: row algebra_simps)
        then show ?thesis
          by (simp add: sum_subtractf sum_distrib_left)
      qed
      ultimately show ?thesis
        using row [of n] pivrow by simp
    qed
  qed
qed

lemma forwardElimination_correct:
  assumes "wellFormed n a" "allFinite n a" "triangular n col a" "pivotsNonzero col a"
      and "forwardElimination n col a = Inr U"
  shows "wellFormed n U \<and> allFinite n U \<and> triangular n n U \<and> pivotsNonzero n U \<and>
         (\<forall>x. satisfies n U x \<longrightarrow> satisfies n a x)"
  using assms
proof (induction "n - col" arbitrary: col a)
  case 0
  then have "U = a" "n \<le> col"
    by (simp_all add: forwardElimination.simps)
  with 0 show ?case
    by (auto simp: triangular_def pivotsNonzero_def)
next
  case (Suc d)
  then have col: "col < n" by simp
  let ?m = "findPivot n col a"
  let ?s = "swapRows col ?m a"
  note m = findPivot_range [OF col, of a]
  have wf: "wellFormed n ?s"
    using Suc.prems(1) col m by (intro wellFormed_swapRows)
  have fin: "allFinite n ?s"
    using Suc.prems(1,2) col m by (intro allFinite_swapRows)
  have tri: "triangular n col ?s"
    using Suc.prems(1,3) m by (intro triangular_swapRows)
  have piv: "pivotsNonzero col ?s"
    using Suc.prems(1,4) m by (intro pivotsNonzero_swapRows)
  from Suc.prems(5) col have nb: "\<not> belowThreshold (elem (?s ! col) col)"
    and rest: "forwardElimination n (Suc col) (eliminateColumn n col ?s) = Inr U"
    by (subst (asm) forwardElimination.simps;
        simp add: belowThreshold_def Let_def split: if_splits)+
  note step = solve_step [OF wf fin tri col nb]
  have "wellFormed n U \<and> allFinite n U \<and> triangular n n U \<and> pivotsNonzero n U \<and>
        (\<forall>x. satisfies n U x \<longrightarrow> satisfies n (eliminateColumn n col ?s) x)"
    using Suc.hyps(2) wellFormed_eliminateColumn [OF wf] step(1,2) step(3) [OF piv] rest
    by (intro Suc.hyps(1)) auto
  moreover have "satisfies n a x" if "satisfies n (eliminateColumn n col ?s) x" for x
    using satisfies_swapRows [OF Suc.prems(1) col m(2)] step(4) [OF that] by blast
  ultimately show ?case by blast
qed

lemma backSubstitution_foldr:
  "backSubstitution n U = foldr (backStep n U) [0..<n] (replicate n (Num 0))"
  by (simp add: backSubstitution_def foldr_conv_fold backStep_def [abs_def] Let_def)

lemma backStep_length [simp]: "length (backStep n U i x) = length x"
  by (simp add: backStep_def Let_def)

lemma backStep_solves:
  assumes wf: "wellFormed n U" and fin: "allFinite n U" and k: "k < n"
      and pk: "U ! k ! k \<noteq> Num 0" and len: "length x = n"
      and xfin: "\<forall>j. k < j \<and> j < n \<longrightarrow> x ! j \<noteq> NaN"
  shows "backStep n U k x ! k \<noteq> NaN"
    and "val (U ! k ! k) * val (backStep n U k x ! k) +
           (\<Sum>j = Suc k..<n. val (U ! k ! j) * val (x ! j)) = val (U ! k ! n)"
    and "\<forall>j. j \<noteq> k \<longrightarrow> backStep n U k x ! j = x ! j"
proof -
  have ufin: "U ! k ! j \<noteq> NaN" if "j \<le> n" for j
    using fin k that by (simp add: allFinite_def)
  have ue: "elem (U ! k) j = U ! k ! j" if "j \<le> n" for j
    using wf k that by (simp add: elem_def wellFormed_def)
  let ?g = "\<lambda>j. elem (U ! k) j * elem x j"
  have g: "?g j = Num (val (U ! k ! j) * val (x ! j))" if "k < j" "j < n" for j
    using that ue [of j] ufin [of j] xfin len by (simp add: elem_def val_times)
  then have gfin: "\<forall>j. Suc k \<le> j \<and> j < n \<longrightarrow> ?g j \<noteq> NaN"
    by simp
  have "fold (\<lambda>j s. s - ?g j) [Suc k..<n] (elem (U ! k) n) =
        Num (val (elem (U ! k) n) - (\<Sum>j = Suc k..<n. val (?g j)))"
    using ufin [of n] ue [of n] gfin by (intro fold_minus_finite) simp_all
  moreover have "(\<Sum>j = Suc k..<n. val (?g j)) = (\<Sum>j = Suc k..<n. val (U ! k ! j) * val (x ! j))"
    by (intro sum.cong) (auto simp: g)
  ultimately have s: "fold (\<lambda>j s. s - ?g j) [Suc k..<n] (elem (U ! k) n) =
        Num (val (U ! k ! n) - (\<Sum>j = Suc k..<n. val (U ! k ! j) * val (x ! j)))"
    using ue [of n] by simp
  obtain p where p: "U ! k ! k = Num p" "p \<noteq> 0"
    using ufin [of k] pk k by (cases "U ! k ! k") auto
  have bk: "backStep n U k x ! k =
        Num ((val (U ! k ! n) - (\<Sum>j = Suc k..<n. val (U ! k ! j) * val (x ! j))) / p)"
    using s p k len ue [of k] by (simp add: backStep_def Let_def)
  show "backStep n U k x ! k \<noteq> NaN"
    using bk by simp
  show "val (U ! k ! k) * val (backStep n U k x ! k) +
           (\<Sum>j = Suc k..<n. val (U ! k ! j) * val (x ! j)) = val (U ! k ! n)"
    using bk p by simp
  show "\<forall>j. j \<noteq> k \<longrightarrow> backStep n U k x ! j = x ! j"
    by (simp add: backStep_def Let_def)
qed

lemma backSubstitution_partial:
  assumes wf: "wellFormed n U" and fin: "allFinite n U" and piv: "pivotsNonzero n U"
      and k: "k \<le> n"
  shows "length (foldr (backStep n U) [k..<n] (replicate n (Num 0))) = n \<and>
         (\<forall>i. k \<le> i \<and> i < n \<longrightarrow>
            foldr (backStep n U) [k..<n] (replicate n (Num 0)) ! i \<noteq> NaN \<and>
            val (U ! i ! i) * val (foldr (backStep n U) [k..<n] (replicate n (Num 0)) ! i) +
              (\<Sum>j = Suc i..<n.
                  val (U ! i ! j) * val (foldr (backStep n U) [k..<n] (replicate n (Num 0)) ! j)) =
              val (U ! i ! n))"
  using k
proof (induction "n - k" arbitrary: k)
  case 0
  then show ?case by simp
next
  case (Suc d)
  then have k: "k < n" by simp
  let ?B = "\<lambda>k. foldr (backStep n U) [k..<n] (replicate n (Num 0))"
  have unfold: "?B k = backStep n U k (?B (Suc k))"
    using k by (simp add: upt_conv_Cons)
  from Suc.hyps(2) k have IH: "length (?B (Suc k)) = n \<and>
         (\<forall>i. Suc k \<le> i \<and> i < n \<longrightarrow>
            ?B (Suc k) ! i \<noteq> NaN \<and>
            val (U ! i ! i) * val (?B (Suc k) ! i) +
              (\<Sum>j = Suc i..<n. val (U ! i ! j) * val (?B (Suc k) ! j)) = val (U ! i ! n))"
    by (intro Suc.hyps(1)) auto
  have pk: "U ! k ! k \<noteq> Num 0"
    using piv k by (simp add: pivotsNonzero_def)
  have xfin: "\<forall>j. k < j \<and> j < n \<longrightarrow> ?B (Suc k) ! j \<noteq> NaN"
    using IH by auto
  note st = backStep_solves [OF wf fin k pk _ xfin]
  have len: "length (?B (Suc k)) = n" using IH by simp
  have same: "?B k ! j = ?B (Suc k) ! j" if "j \<noteq> k" for j
    using st(3) [OF len] that unfold by simp
  have "?B k ! i \<noteq> NaN \<and>
        val (U ! i ! i) * val (?B k ! i) + (\<Sum>j = Suc i..<n. val (U ! i ! j) * val (?B k ! j)) =
          val (U ! i ! n)" if i: "k \<le> i" "i < n" for i
  proof (cases "i = k")
    case True
    have "(\<Sum>j = Suc k..<n. val (U ! k ! j) * val (?B k ! j)) =
          (\<Sum>j = Suc k..<n. val (U ! k ! j) * val (?B (Suc k) ! j))"
      by (intro sum.cong) (auto simp: same)
    with True st(1,2) [OF len] unfold show ?thesis by simp
  next
    case False
    with i have i': "Suc k \<le> i" by simp
    have "(\<Sum>j = Suc i..<n. val (U ! i ! j) * val (?B k ! j)) =
          (\<Sum>j = Suc i..<n. val (U ! i ! j) * val (?B (Suc k) ! j))"
      using i' by (intro sum.cong) (auto simp: same)
    with IH i' i(2) same [of i] False show ?thesis by simp
  qed
  with len unfold show ?case by simp
qed

lemma backSubstitution_correct:
  assumes wf: "wellFormed n U" and fin: "allFinite n U" and piv: "pivotsNonzero n U"
      and tri: "triangular n n U"
  shows "\<forall>i<n. backSubstitution n U ! i \<noteq> NaN"
    and "satisfies n U (\<lambda>j. val (backSubstitution n U ! j))"
proof -
  let ?x = "backSubstitution n U"
  from backSubstitution_partial [OF wf fin piv, of 0]
  have P: "\<forall>i<n. ?x ! i \<noteq> NaN \<and>
            val (U ! i ! i) * val (?x ! i) + (\<Sum>j = Suc i..<n. val (U ! i ! j) * val (?x ! j)) =
              val (U ! i ! n)"
    by (simp add: backSubstitution_foldr)
  then show "\<forall>i<n. ?x ! i \<noteq> NaN" by simp
  show "satisfies n U (\<lambda>j. val (?x ! j))"
    unfolding satisfies_def
  proof (intro allI impI)
    fix i assume i: "i < n"
    let ?f = "\<lambda>j. val (U ! i ! j) * val (?x ! j)"
    have zero: "(\<Sum>j = 0..<i. ?f j) = 0"
      using tri i by (intro sum.neutral) (auto simp: triangular_def)
    have "(\<Sum>j<n. ?f j) = (\<Sum>j = 0..<i. ?f j) + (\<Sum>j = i..<n. ?f j)"
      using i by (simp add: lessThan_atLeast0 sum.atLeastLessThan_concat)
    also have "(\<Sum>j = i..<n. ?f j) = ?f i + (\<Sum>j = Suc i..<n. ?f j)"
      using i by (simp add: sum.atLeast_Suc_lessThan)
    finally show "(\<Sum>j<n. ?f j) = val (U ! i ! n)"
      using zero P i by simp
  qed
qed

lemma solveLinearSystem_correct:
  assumes sq: "\<forall>i<length A. length (A ! i) = length A"
      and fin: "\<forall>i<length A. \<forall>j<length A. A ! i ! j \<noteq> NaN"
      and len: "length b = length A"
      and sol: "solveLinearSystem A b = Inr w"
  shows "\<forall>i<length A. w ! i \<noteq> NaN"
    and "\<forall>i<length A. (\<Sum>j<length A. val (A ! i ! j) * val (w ! j)) = b ! i"
proof -
  let ?n = "length A"
  let ?aug = "augmentedMatrix A b"
  have entry: "?aug ! i ! j = (if j < ?n then A ! i ! j else Num (b ! i))"
    if "i < ?n" "j \<le> ?n" for i j
    using that sq len by (auto simp: augmentedMatrix_nth nth_append elemr_def)
  have wf: "wellFormed ?n ?aug"
    using sq by (simp add: wellFormed_def augmentedMatrix_nth)
  have af: "allFinite ?n ?aug"
    unfolding allFinite_def using entry fin by auto
  have tri: "triangular ?n 0 ?aug" and piv: "pivotsNonzero 0 ?aug"
    by (simp_all add: triangular_def pivotsNonzero_def)
  from sol obtain U where U: "forwardElimination ?n 0 ?aug = Inr U"
    and w: "w = backSubstitution ?n U"
    by (auto simp: solveLinearSystem_def Let_def split: sum.splits)
  from forwardElimination_correct [OF wf af tri piv U]
  have U': "wellFormed ?n U" "allFinite ?n U" "triangular ?n ?n U" "pivotsNonzero ?n U"
    and orig: "\<And>x. satisfies ?n U x \<Longrightarrow> satisfies ?n ?aug x"
    by blast+
  from backSubstitution_correct [OF U'(1,2,4,3)] w
  have wfin: "\<forall>i<?n. w ! i \<noteq> NaN" and "satisfies ?n U (\<lambda>j. val (w ! j))"
    by simp_all
  from orig [OF this(2)] have sat: "satisfies ?n ?aug (\<lambda>j. val (w ! j))" .
  show "\<forall>i<?n. w ! i \<noteq> NaN" by (rule wfin)
  show "\<forall>i<?n. (\<Sum>j<?n. val (A ! i ! j) * val (w ! j)) = b ! i"
  proof (intro allI impI)
    fix i assume i: "i < ?n"
    have "(\<Sum>j<?n. val (?aug ! i ! j) * val (w ! j)) = (\<Sum>j<?n. val (A ! i ! j) * val (w ! j))"
      using i by (intro sum.cong) (auto simp: entry)
    moreover have "(\<Sum>j<?n. val (?aug ! i ! j) * val (w ! j)) = val (?aug ! i ! ?n)"
      using sat i by (simp add: satisfies_def)
    ultimately show "(\<Sum>j<?n. val (A ! i ! j) * val (w ! j)) = b ! i"
      using entry [of i ?n] i by simp
  qed
qed

lemma fitted_weights_finite:
  assumes fit: "constructor points values func smth eps = Inr this"
      and dims: "\<forall>p\<in>set points. length p = D"
  shows "\<exists>w. length w = length points \<and> weights this = map Num w"
proof -
  note f = constructor_fields [OF fit]
  from fitted_kernel [OF fit dims] obtain k e where
    nrm: "norm' this = (\<lambda>x1 x2. radial k (Num e) (euclideanDistance x1 x2))"
    by blast
  let ?A = "interpolationMatrix points smth (norm' this)"
  have nv: "norm' this (points ! a) (points ! b) \<noteq> NaN"
    if "a < length points" "b < length points" for a b
  proof -
    from that dims have "length (points ! a) = D" "length (points ! b) = D" by auto
    then have "euclideanDistance (points ! a) (points ! b) =
               Num (distance D (points ! a) (points ! b))"
      by (simp add: euclideanDistance_le)
    then show ?thesis by (simp add: nrm radial_real distance_nonneg)
  qed
  have fin: "\<forall>a<length ?A. \<forall>b<length ?A. ?A ! a ! b \<noteq> NaN"
  proof (intro allI impI)
    fix a b assume "a < length ?A" "b < length ?A"
    then have ab: "a < length points" "b < length points" by simp_all
    from nv [OF ab] nv [OF ab(1) ab(1)] obtain x y where
      "norm' this (points ! a) (points ! b) = Num x" "norm' this (points ! a) (points ! a) = Num y"
      by (metis number.exhaust)
    with ab show "?A ! a ! b \<noteq> NaN"
      by (simp add: interpolationMatrix_entry)
  qed
  have sq: "\<forall>a<length ?A. length (?A ! a) = length ?A"
    by (simp add: interpolationMatrix_row)
  have len: "length values = length ?A"
    using f(1) by simp
  from solveLinearSystem_correct(1) [OF sq fin len f(8)]
  have "\<forall>j<length points. weights this ! j \<noteq> NaN"
    by simp
  then have "weights this = map Num (map val (weights this))"
    using f(9) by (auto simp: list_eq_iff_nth_eq Num_val)
  with f(9) show ?thesis
    by (intro exI [of _ "map val (weights this)"]) simp
qed

section \<open>Evaluation\<close>

text \<open>
  C1. Let the construction from points that all have \<open>D\<close> coordinates succeed. Then the
  kernel \<open>k\<close> of the name, a finite shape parameter \<open>e\<close> and finite weights \<open>w\<close> are
  fixed on the interpolator, and for every query \<open>q\<close>: if \<open>q\<close> has \<open>D\<close> coordinates,
  \<open>interpolatePoint\<close> returns the sum over the training points of the weight times the
  kernel value at the Euclidean distance from \<open>q\<close> to the point; otherwise it fails with
  \<open>DimensionMismatch\<close>. The result is a function of the interpolator and the query.
\<close>

theorem evaluate_sum:
  assumes "constructor points values func smth eps = Inr this"
      and "\<forall>p\<in>set points. length p = D"
  shows "\<exists>k e w. kernelOf func = Some k \<and> epsilon this = Num e \<and>
           length w = length points \<and> weights this = map Num w \<and>
           (\<forall>q. interpolatePoint this q =
              (if length q = D
               then Inr (Num (\<Sum>i<length points.
                                 w ! i * kernel_value k e (distance D q (points ! i))))
               else Inl DimensionMismatch))"
proof -
  note f = constructor_fields [OF assms(1)]
  from fitted_kernel [OF assms] obtain k e where
    k: "kernelOf func = Some k" and e: "epsilon this = Num e"
    and nrm: "norm' this = (\<lambda>x1 x2. radial k (Num e) (euclideanDistance x1 x2))"
    by blast
  from fitted_weights_finite [OF assms] obtain w where
    w: "length w = length points" "weights this = map Num w"
    by blast
  have D0: "length (nodes this ! 0) = D"
    using f(2,3) assms(2) by (cases points) auto
  have "interpolatePoint this q =
        (if length q = D
         then Inr (Num (\<Sum>i<length points.
                           w ! i * kernel_value k e (distance D q (points ! i))))
         else Inl DimensionMismatch)" for q
  proof (cases "length q = D")
    case True
    have "norm' this q (points ! i) = Num (kernel_value k e (distance D q (points ! i)))"
      if "i < length points" for i
    proof -
      from that assms(2) have "length (points ! i) = D" by auto
      with True have "euclideanDistance q (points ! i) = Num (distance D q (points ! i))"
        by (simp add: euclideanDistance_le)
      then show ?thesis by (simp add: nrm radial_real distance_nonneg)
    qed
    then have "(\<Sum>i<length points. weights this ! i * norm' this q (points ! i)) =
               (\<Sum>i<length points.
                   Num (w ! i * kernel_value k e (distance D q (points ! i))))"
      using w by (intro sum.cong) auto
    with True D0 show ?thesis
      using interpolatePoint_sum [of this q] f(3,9) by (simp add: sum_Num)
  next
    case False
    with D0 show ?thesis
      using interpolatePoint_sum [of this q] f(3,9) by simp
  qed
  with k e w show ?thesis by blast
qed

theorem evaluate_sum_witness:
  "\<exists>this. constructor [[0], [1]] [3, 4] ''THIN_PLATE'' 1 None = Inr this \<and>
      list_all (\<lambda>p. length p = 1) [[0], [1::real]] \<and>
      (\<exists>k e w. kernelOf ''THIN_PLATE'' = Some k \<and> epsilon this = Num e \<and>
         length w = length [[0], [1::real]] \<and> weights this = map Num w \<and>
         (\<forall>q. interpolatePoint this q =
            (if length q = 1
             then Inr (Num (\<Sum>i<length [[0], [1::real]].
                               w ! i * kernel_value k e (distance 1 q ([[0], [1]] ! i))))
             else Inl DimensionMismatch))) \<and>
      interpolatePoint this [2] = Inr (Num (3 * (4 * ln 2))) \<and>
      interpolatePoint this [2, 0] = Inl DimensionMismatch"
proof -
  let ?M = "\<lparr>di = [3, 4], weights = [Num 3, Num 4], nodes = [[0], [1]], smooth = 1,
          epsilon = Num 1,
          norm' = (\<lambda>x1 x2. let r = euclideanDistance x1 x2 in
                    if r = Num 0 then Num 0 else r * r * Math_log r)\<rparr>"
  have fit: "constructor [[0], [1]] [3, 4] ''THIN_PLATE'' 1 None = Inr ?M"
    by (simp add: fit_defs solve_defs euclideanDistance_def forwardElimination.simps)
  have dims: "\<forall>p\<in>set [[0], [1::real]]. length p = 1"
    by simp
  have v: "interpolatePoint ?M [2] = Inr (Num (3 * (4 * ln 2)))"
    "interpolatePoint ?M [2, 0] = Inl DimensionMismatch"
    by (simp_all add: interpolatePoint_def elem_def euclideanDistance_def elemr_def)
  from fit v evaluate_sum [OF fit dims] show ?thesis
    by auto
qed

text \<open>
  In exact arithmetic a successful construction from points of one dimension interpolates:
  at the training point \<open>i\<close> the interpolator returns the value \<open>i\<close> minus the smoothing
  times the weight \<open>i\<close>, and so the value itself when the smoothing is 0. (The rounding of
  machine arithmetic is outside this development.)
\<close>

theorem interpolation_residual:
  assumes fit: "constructor points values func smth eps = Inr this"
      and dims: "\<forall>p\<in>set points. length p = D"
      and i: "i < length points"
  shows "\<exists>w. weights this ! i = Num w \<and>
             interpolatePoint this (points ! i) = Inr (Num (values ! i - smth * w))"
proof -
  let ?n = "length points"
  note f = constructor_fields [OF fit]
  from fitted_kernel [OF fit dims] obtain k e where
    k: "kernelOf func = Some k" and e: "epsilon this = Num e"
    and nrm: "norm' this = (\<lambda>x1 x2. radial k (Num e) (euclideanDistance x1 x2))"
    by blast
  let ?phi = "\<lambda>a b. kernel_value k e (distance D (points ! a) (points ! b))"
  have nv: "norm' this (points ! a) (points ! b) = Num (?phi a b)" if "a < ?n" "b < ?n" for a b
  proof -
    from that dims have "length (points ! a) = D" "length (points ! b) = D" by auto
    then have "euclideanDistance (points ! a) (points ! b) =
               Num (distance D (points ! a) (points ! b))"
      by (simp add: euclideanDistance_le)
    then show ?thesis by (simp add: nrm radial_real distance_nonneg)
  qed
  let ?A = "interpolationMatrix points smth (norm' this)"
  have A: "?A ! a ! b = Num (?phi a b + (if b = a then smth else 0))"
    if "a < ?n" "b < ?n" for a b
    using that by (simp add: interpolationMatrix_entry nv)
  have sq: "\<forall>a<length ?A. length (?A ! a) = length ?A"
    by (simp add: interpolationMatrix_row)
  have fin: "\<forall>a<length ?A. \<forall>b<length ?A. ?A ! a ! b \<noteq> NaN"
    using A by simp
  have len: "length values = length ?A"
    using f(1) by simp
  from solveLinearSystem_correct [OF sq fin len f(8)]
  have wfin: "\<forall>j<?n. weights this ! j \<noteq> NaN"
    and eq: "\<forall>a<?n. (\<Sum>j<?n. val (?A ! a ! j) * val (weights this ! j)) = values ! a"
    by simp_all
  let ?w = "\<lambda>j. val (weights this ! j)"
  have wj: "weights this ! j = Num (?w j)" if "j < ?n" for j
    using wfin that by (simp add: Num_val)
  have "(\<Sum>j<?n. val (?A ! i ! j) * ?w j) =
        (\<Sum>j<?n. ?phi i j * ?w j + (if j = i then smth * ?w i else 0))"
    using i by (intro sum.cong) (auto simp: A algebra_simps)
  also have "\<dots> = (\<Sum>j<?n. ?phi i j * ?w j) + smth * ?w i"
    using i by (simp add: sum.distrib)
  finally have res: "(\<Sum>j<?n. ?phi i j * ?w j) = values ! i - smth * ?w i"
    using eq i by simp
  have D0: "length (nodes this ! 0) = D"
    using f(2,3) dims by (cases points) auto
  have Di: "length (points ! i) = D"
    using dims i by simp
  have "(\<Sum>j<?n. weights this ! j * norm' this (points ! i) (points ! j)) =
        (\<Sum>j<?n. Num (?phi i j * ?w j))"
    using i by (intro sum.cong) (auto simp: nv wj [symmetric] val_times wfin mult.commute)
  then have "interpolatePoint this (points ! i) = Inr (Num (\<Sum>j<?n. ?phi i j * ?w j))"
    using interpolatePoint_sum [of this "points ! i"] f(3,9) D0 Di by (simp add: sum_Num)
  with res wj [OF i] show ?thesis
    by (intro exI [of _ "?w i"]) simp
qed

corollary exact_interpolation:
  assumes "constructor points values func 0 eps = Inr this"
      and "\<forall>p\<in>set points. length p = D"
      and "i < length points"
  shows "interpolatePoint this (points ! i) = Inr (Num (values ! i))"
  using interpolation_residual [OF assms] by auto

section \<open>Refusal of degenerate systems\<close>

lemma number_less_irrefl: "\<not> (a::number) < a"
  by (cases a) simp_all

lemma number_less_passes:
  assumes "\<not> (m::number) < r" "m < k"
  shows "\<not> k < r" "\<not> k \<le> r"
  using assms by (cases m; cases k; cases r; simp)+

lemma pivot_fold_firstLargest:
  "col < k \<Longrightarrow>
   firstLargest k col aug
     (fold (\<lambda>row maxRow.
              if Math_abs (elem (aug ! row) col) > Math_abs (elem (aug ! maxRow) col)
              then row else maxRow)
        [Suc col..<k] col)"
proof (induction k)
  case 0
  then show ?case by simp
next
  case (Suc k)
  let ?h = "\<lambda>r. Math_abs (elem (aug ! r) col)"
  let ?f = "\<lambda>row maxRow. if ?h row > ?h maxRow then row else maxRow"
  show ?case
  proof (cases "col = k")
    case True
    then show ?thesis by (simp add: firstLargest_def number_less_irrefl)
  next
    case False
    with Suc.prems have lt: "col < k" by simp
    let ?m = "fold ?f [Suc col..<k] col"
    from Suc.IH [OF lt] have m: "col \<le> ?m" "?m < k"
      and mx: "\<And>r. col \<le> r \<Longrightarrow> r < k \<Longrightarrow> \<not> ?h ?m < ?h r"
      and fst: "\<And>r. col \<le> r \<Longrightarrow> r < ?m \<Longrightarrow> \<not> ?h ?m \<le> ?h r"
      by (auto simp: firstLargest_def)
    from lt have step: "fold ?f [Suc col..<Suc k] col = ?f k ?m"
      by simp
    show ?thesis
    proof (cases "?h ?m < ?h k")
      case True
      have "\<not> ?h k < ?h r" if "col \<le> r" "r < Suc k" for r
      proof (cases "r = k")
        case True
        then show ?thesis by (simp add: number_less_irrefl)
      next
        case False
        with that have "r < k" by simp
        from number_less_passes(1) [OF mx [OF that(1) this] True] show ?thesis .
      qed
      moreover have "\<not> ?h k \<le> ?h r" if "col \<le> r" "r < k" for r
        using number_less_passes(2) [OF mx [OF that] True] .
      ultimately show ?thesis
        unfolding step using True lt by (simp add: firstLargest_def)
    next
      case False
      have "\<not> ?h ?m < ?h r" if "col \<le> r" "r < Suc k" for r
        using that mx [of r] False by (cases "r = k") auto
      then show ?thesis
        unfolding step using False m fst by (simp add: firstLargest_def)
    qed
  qed
qed

lemma findPivot_firstLargest:
  "col < n \<Longrightarrow> firstLargest n col aug (findPivot n col aug)"
  unfolding findPivot_def using pivot_fold_firstLargest [of col n aug] by simp

lemma firstLargest_unique:
  assumes m: "firstLargest n col aug m"
      and m': "firstLargest n col aug m'"
      and fin: "\<forall>r\<in>{col..<n}. elem (aug ! r) col \<noteq> NaN"
  shows "m = m'"
proof -
  have "False" if a: "firstLargest n col aug a" and b: "firstLargest n col aug b" and "a < b"
    for a b
  proof -
    from a b that(3) have r: "col \<le> a" "a < n" "col \<le> b" "b < n"
      by (auto simp: firstLargest_def)
    with fin obtain x y where xy: "elem (aug ! a) col = Num x" "elem (aug ! b) col = Num y"
      by (cases "elem (aug ! a) col"; cases "elem (aug ! b) col") auto
    from a r have "\<not> Math_abs (elem (aug ! a) col) < Math_abs (elem (aug ! b) col)"
      by (auto simp: firstLargest_def)
    moreover from b r that(3) have "\<not> Math_abs (elem (aug ! b) col) \<le> Math_abs (elem (aug ! a) col)"
      by (auto simp: firstLargest_def)
    ultimately show False using xy by simp
  qed
  from this [of m m'] this [of m' m] m m' show ?thesis
    by (cases m m' rule: linorder_cases) auto
qed

lemma swapRows_pivot:
  assumes "col < n" "length aug = n"
  shows "elem (swapRows col (findPivot n col aug) aug ! col) col =
         elem (aug ! findPivot n col aug) col"
  using assms findPivot_range [OF assms(1), of aug] by (simp add: swapRows_nth)

lemma forwardElimination_With:
  "forwardElimination n col aug = forwardEliminationWith eliminateColumn n col aug"
proof (induction n col aug rule: forwardElimination.induct)
  case (1 n col augmented)
  from 1 show ?case
    by (subst forwardElimination.simps, subst forwardEliminationWith.simps)
      (auto simp: Let_def)
qed

lemma forwardEliminationWith_columns:
  "col \<le> n \<Longrightarrow>
   forwardEliminationWith eliminate n col (columnsDone eliminate n col aug) = Inl SingularMatrix \<longleftrightarrow>
     (\<exists>c. col \<le> c \<and> c < n \<and> belowThreshold (selectedPivot eliminate n c aug) \<and>
          (\<forall>k. col \<le> k \<and> k < c \<longrightarrow> \<not> belowThreshold (selectedPivot eliminate n k aug)))"
proof (induction "n - col" arbitrary: col)
  case 0
  then have "col = n" by simp
  then show ?case by (simp add: forwardEliminationWith.simps)
next
  case (Suc d)
  then have lt: "col < n" and d: "d = n - Suc col" and le: "Suc col \<le> n" by simp_all
  note IH = Suc.hyps(1) [OF d le]
  let ?below = "\<lambda>c. belowThreshold (selectedPivot eliminate n c aug)"
  show ?case
  proof (cases "?below col")
    case True
    then have "forwardEliminationWith eliminate n col (columnsDone eliminate n col aug) =
               Inl SingularMatrix"
      using lt by (subst forwardEliminationWith.simps)
        (simp add: selectedPivot_def belowThreshold_def Let_def)
    moreover have "\<exists>c. col \<le> c \<and> c < n \<and> ?below c \<and> (\<forall>k. col \<le> k \<and> k < c \<longrightarrow> \<not> ?below k)"
      using True lt by (intro exI [of _ col]) auto
    ultimately show ?thesis by simp
  next
    case False
    then have "forwardEliminationWith eliminate n col (columnsDone eliminate n col aug) =
               forwardEliminationWith eliminate n (Suc col) (columnsDone eliminate n (Suc col) aug)"
      using lt by (subst forwardEliminationWith.simps)
        (simp add: selectedPivot_def belowThreshold_def Let_def)
    moreover have "(\<exists>c. col \<le> c \<and> c < n \<and> ?below c \<and> (\<forall>k. col \<le> k \<and> k < c \<longrightarrow> \<not> ?below k)) \<longleftrightarrow>
         (\<exists>c. Suc col \<le> c \<and> c < n \<and> ?below c \<and> (\<forall>k. Suc col \<le> k \<and> k < c \<longrightarrow> \<not> ?below k))"
      (is "?L \<longleftrightarrow> ?R")
    proof
      assume ?L
      then obtain c where c: "col \<le> c" "c < n" "?below c"
        "\<forall>k. col \<le> k \<and> k < c \<longrightarrow> \<not> ?below k" by blast
      with False have "c \<noteq> col" by auto
      with c show ?R by (intro exI [of _ c]) auto
    next
      assume ?R
      then obtain c where c: "Suc col \<le> c" "c < n" "?below c"
        "\<forall>k. Suc col \<le> k \<and> k < c \<longrightarrow> \<not> ?below k" by blast
      have "\<not> ?below k" if "col \<le> k" "k < c" for k
        using that c(4) False by (cases "k = col") auto
      with c show ?L by (intro exI [of _ c]) auto
    qed
    ultimately show ?thesis using IH by simp
  qed
qed

lemma forwardEliminationWith_singular_iff:
  "forwardEliminationWith eliminate n 0 aug = Inl SingularMatrix \<longleftrightarrow>
     (\<exists>c<n. (\<forall>k<c. \<not> Math_abs (selectedPivot eliminate n k aug) < Num (4951760157141521 / 2 ^ 92)) \<and>
        Math_abs (selectedPivot eliminate n c aug) < Num (4951760157141521 / 2 ^ 92))"
  using forwardEliminationWith_columns [of 0 n eliminate aug]
  by (auto simp: belowThreshold_def threshold_def)

lemma solveLinearSystem_singular_iff:
  "solveLinearSystem A b = Inl SingularMatrix \<longleftrightarrow>
     forwardElimination (length A) 0 (augmentedMatrix A b) = Inl SingularMatrix"
  by (auto simp: solveLinearSystem_def Let_def split: sum.splits dest: forwardElimination_error)

lemma threshold_nearest:
  "\<bar>4951760157141521 / 2 ^ 92 - 1 / 10 ^ 12\<bar> \<le> (1 / 2 ^ 93 :: real)"
  by (simp add: field_simps)

text \<open>
  The comparison is strict: a pivot equal to the bound is accepted, and the next double below
  it is refused.
\<close>

lemma pivot_at_the_bound:
  "solveLinearSystem [[Num (4951760157141521 / 2 ^ 92)]] [1] =
     Inr [Num (2 ^ 92 / 4951760157141521)] \<and>
   solveLinearSystem [[Num (4951760157141520 / 2 ^ 92)]] [1] = Inl SingularMatrix"
  by (simp add: solve_defs forwardElimination.simps)

lemma finiteFrom_swapRows:
  assumes "wellFormed n aug" "finiteFrom n col aug" "col \<le> m" "m < n"
  shows "finiteFrom n col (swapRows col m aug)"
  using assms by (auto simp: finiteFrom_def wellFormed_def swapRows_nth)

lemma zeroRow_swapRows:
  assumes "wellFormed n aug" "zeroRow n col aug" "col \<le> m" "m < n"
  shows "zeroRow n col (swapRows col m aug)"
proof -
  from assms(2) obtain i where i: "col \<le> i" "i < n"
    "\<forall>j. col \<le> j \<and> j < n \<longrightarrow> aug ! i ! j = Num 0"
    by (auto simp: zeroRow_def)
  have "swapRows col m aug ! exchange col m i = aug ! i"
    using assms(1,3,4) i by (intro swapRows_exchange) (auto simp: wellFormed_def)
  with i exchange_range [OF assms(3,4) i(1,2)] show ?thesis
    unfolding zeroRow_def by (intro exI [of _ "exchange col m i"]) simp
qed

lemma equalRows_swapRows:
  assumes "wellFormed n aug" "equalRows n col aug" "col \<le> m" "m < n"
  shows "equalRows n col (swapRows col m aug)"
proof -
  from assms(2) obtain i i' where i: "col \<le> i" "i < n" "col \<le> i'" "i' < n" "i \<noteq> i'"
    "\<forall>j. col \<le> j \<and> j < n \<longrightarrow> aug ! i ! j = aug ! i' ! j"
    by (auto simp: equalRows_def)
  have "swapRows col m aug ! exchange col m i = aug ! i"
       "swapRows col m aug ! exchange col m i' = aug ! i'"
    using assms(1,3,4) i by (auto intro!: swapRows_exchange simp: wellFormed_def)
  moreover have "exchange col m i \<noteq> exchange col m i'"
    using i(5) exchange_inj by blast
  ultimately show ?thesis
    using i exchange_range [OF assms(3,4) i(1,2)] exchange_range [OF assms(3,4) i(3,4)]
    unfolding equalRows_def
    by (intro exI [of _ "exchange col m i"] exI [of _ "exchange col m i'"]) simp
qed

lemma elimination_step:
  assumes wf: "wellFormed n a" and fin: "finiteFrom n col a" and col: "col < n"
      and nb: "\<not> belowThreshold (elem (a ! col) col)"
      and ze: "zeroRow n col a \<or> equalRows n col a"
  shows "finiteFrom n (Suc col) (eliminateColumn n col a)"
    and "zeroRow n (Suc col) (eliminateColumn n col a) \<or>
         equalRows n (Suc col) (eliminateColumn n col a)"
proof -
  let ?p = "a ! col ! col"
  let ?e = "eliminateColumn n col a"
  have pe: "elem (a ! col) col = ?p"
    using wf col by (simp add: elem_def wellFormed_def)
  have pfin: "?p \<noteq> NaN"
    using fin col by (simp add: finiteFrom_def)
  have pnz: "?p \<noteq> Num 0"
    using nb pe belowThreshold_zero by auto
  have entry: "?e ! i ! j = a ! i ! j - (a ! i ! col / ?p) * a ! col ! j"
    if "col < i" "i < n" "col \<le> j" "j \<le> n" for i j
    using that wf col by (simp add: eliminateColumn_entry)
  have afin: "a ! i ! j \<noteq> NaN" if "col \<le> i" "i < n" "col \<le> j" "j \<le> n" for i j
    using fin that by (simp add: finiteFrom_def)
  show "finiteFrom n (Suc col) ?e"
    unfolding finiteFrom_def
  proof (intro allI impI)
    fix i j
    assume h: "Suc col \<le> i \<and> i < n \<and> Suc col \<le> j \<and> j \<le> n"
    then have "?e ! i ! j = a ! i ! j - (a ! i ! col / ?p) * a ! col ! j"
      by (intro entry) auto
    moreover have "a ! i ! j \<noteq> NaN" "a ! i ! col \<noteq> NaN" "a ! col ! j \<noteq> NaN"
      using h col by (simp_all add: afin)
    ultimately show "?e ! i ! j \<noteq> NaN"
      using pfin pnz by (simp add: num_elim_finite)
  qed
  from ze show "zeroRow n (Suc col) ?e \<or> equalRows n (Suc col) ?e"
  proof
    assume "zeroRow n col a"
    then obtain i where i: "col \<le> i" "i < n"
      "\<forall>j. col \<le> j \<and> j < n \<longrightarrow> a ! i ! j = Num 0"
      by (auto simp: zeroRow_def)
    from i(3) col have "a ! i ! col = Num 0" by simp
    with pnz have "i \<noteq> col" by auto
    with i have i': "col < i" by simp
    have "?e ! i ! j = Num 0" if "Suc col \<le> j" "j < n" for j
    proof -
      have "?e ! i ! j = a ! i ! j - (a ! i ! col / ?p) * a ! col ! j"
        using that i' i(2) by (intro entry) auto
      moreover have "a ! i ! j = Num 0" "a ! i ! col = Num 0"
        using i(3) that col by auto
      moreover have "a ! col ! j \<noteq> NaN"
        using that col by (simp add: afin)
      ultimately show ?thesis
        using pfin pnz by (simp add: num_elim_zero)
    qed
    with i' i(2) have "zeroRow n (Suc col) ?e"
      unfolding zeroRow_def by (intro exI [of _ i]) auto
    then show ?thesis ..
  next
    assume "equalRows n col a"
    then obtain i i' where i: "col \<le> i" "i < n" "col \<le> i'" "i' < n" "i \<noteq> i'"
      "\<forall>j. col \<le> j \<and> j < n \<longrightarrow> a ! i ! j = a ! i' ! j"
      by (auto simp: equalRows_def)
    have pivot_case: "zeroRow n (Suc col) ?e"
      if x: "col < x" "x < n" "\<forall>j. col \<le> j \<and> j < n \<longrightarrow> a ! x ! j = a ! col ! j" for x
    proof -
      have "?e ! x ! j = Num 0" if "Suc col \<le> j" "j < n" for j
      proof -
        have "?e ! x ! j = a ! x ! j - (a ! x ! col / ?p) * a ! col ! j"
          using that x by (intro entry) auto
        moreover have "a ! x ! j = a ! col ! j" "a ! x ! col = ?p"
          using x(3) that col by auto
        moreover have "a ! col ! j \<noteq> NaN"
          using that col by (simp add: afin)
        ultimately show ?thesis
          using pfin pnz by (simp add: num_elim_self)
      qed
      with x show ?thesis
        unfolding zeroRow_def by (intro exI [of _ x]) auto
    qed
    consider "i = col" | "i' = col" | "col < i" "col < i'"
      using i by linarith
    then show ?thesis
    proof cases
      case 1
      with i have "col < i'" "\<forall>j. col \<le> j \<and> j < n \<longrightarrow> a ! i' ! j = a ! col ! j"
        by auto
      from pivot_case [OF this(1) i(4) this(2)] show ?thesis ..
    next
      case 2
      with i have "col < i" "\<forall>j. col \<le> j \<and> j < n \<longrightarrow> a ! i ! j = a ! col ! j"
        by auto
      from pivot_case [OF this(1) i(2) this(2)] show ?thesis ..
    next
      case 3
      have "?e ! i ! j = ?e ! i' ! j" if "Suc col \<le> j" "j < n" for j
      proof -
        have "?e ! i ! j = a ! i ! j - (a ! i ! col / ?p) * a ! col ! j"
          using that 3 i(2) by (intro entry) simp_all
        moreover have "?e ! i' ! j = a ! i' ! j - (a ! i' ! col / ?p) * a ! col ! j"
          using that 3 i(4) by (intro entry) simp_all
        moreover have "a ! i ! j = a ! i' ! j" "a ! i ! col = a ! i' ! col"
          using i(6) that col by auto
        ultimately show ?thesis by simp
      qed
      with 3 i have "equalRows n (Suc col) ?e"
        unfolding equalRows_def by (intro exI [of _ i] exI [of _ i']) auto
      then show ?thesis ..
    qed
  qed
qed

lemma forwardElimination_degenerate:
  assumes "wellFormed n aug" "finiteFrom n col aug" "zeroRow n col aug \<or> equalRows n col aug"
  shows "forwardElimination n col aug = Inl SingularMatrix"
  using assms
proof (induction "n - col" arbitrary: col aug)
  case 0
  then show ?case by (auto simp: zeroRow_def equalRows_def)
next
  case (Suc d)
  then have col: "col < n" by simp
  let ?m = "findPivot n col aug"
  let ?a = "swapRows col ?m aug"
  note m = findPivot_range [OF col, of aug]
  have wf: "wellFormed n ?a"
    using Suc.prems(1) col m by (intro wellFormed_swapRows)
  have fin: "finiteFrom n col ?a"
    using Suc.prems(1,2) m by (intro finiteFrom_swapRows)
  have ze: "zeroRow n col ?a \<or> equalRows n col ?a"
    using Suc.prems(1,3) m zeroRow_swapRows equalRows_swapRows by blast
  show ?case
  proof (cases "belowThreshold (elem (?a ! col) col)")
    case True
    with col show ?thesis
      by (subst forwardElimination.simps) (simp add: belowThreshold_def Let_def)
  next
    case False
    from elimination_step [OF wf fin col False ze]
    have fin': "finiteFrom n (Suc col) (eliminateColumn n col ?a)"
      and ze': "zeroRow n (Suc col) (eliminateColumn n col ?a) \<or>
                equalRows n (Suc col) (eliminateColumn n col ?a)"
      by simp_all
    have "forwardElimination n (Suc col) (eliminateColumn n col ?a) = Inl SingularMatrix"
      using Suc.hyps(2) wellFormed_eliminateColumn [OF wf] fin' ze'
      by (intro Suc.hyps(1)) auto
    with col False show ?thesis
      by (subst forwardElimination.simps) (simp add: belowThreshold_def Let_def)
  qed
qed

lemma coincident_points_singular:
  assumes len: "length points = length values"
      and dims: "\<forall>p\<in>set points. length p = D"
      and ij: "i < j" "j < length points" "points ! i = points ! j"
      and known: "kernelOf func \<noteq> None"
  shows "constructor points values func 0 eps = Inl SingularMatrix"
proof -
  let ?n = "length points"
  from known obtain k where k: "kernelOf func = Some k" by auto
  from resolved_epsilon_finite [OF dims, of eps] obtain e where
    e: "(case eps of None \<Rightarrow> computeEpsilon points | Some x \<Rightarrow> Num x) = Num e" by blast
  let ?nrm = "\<lambda>x1 x2. radial k (Num e) (euclideanDistance x1 x2)"
  let ?A = "interpolationMatrix points 0 ?nrm"
  let ?aug = "augmentedMatrix ?A values"
  have nrm: "getRbfFunction (Num e) func = Inr ?nrm"
    by (simp add: getRbfFunction_radial k)
  have fin: "?nrm (points ! a) (points ! b) \<noteq> NaN" if "a < ?n" "b < ?n" for a b
  proof -
    from that dims have "length (points ! a) = D" "length (points ! b) = D" by auto
    then have "euclideanDistance (points ! a) (points ! b) =
               Num (distance D (points ! a) (points ! b))"
      by (simp add: euclideanDistance_le)
    then show ?thesis by (simp add: radial_real distance_nonneg)
  qed
  have A: "?A ! a ! b = ?nrm (points ! a) (points ! b)" if "a < ?n" "b < ?n" for a b
    using that by (simp add: interpolationMatrix_entry)
  have Alen: "length (?A ! a) = ?n" if "a < ?n" for a
    using that by (simp add: interpolationMatrix_row)
  have aug: "?aug ! a ! b = (if b < ?n then ?nrm (points ! a) (points ! b) else Num (values ! a))"
    if "a < ?n" "b \<le> ?n" for a b
    using that A Alen len by (auto simp: augmentedMatrix_nth nth_append elemr_def)
  have wf: "wellFormed ?n ?aug"
    using Alen by (simp add: wellFormed_def augmentedMatrix_nth)
  have ff: "finiteFrom ?n 0 ?aug"
    unfolding finiteFrom_def using aug fin by auto
  have "equalRows ?n 0 ?aug"
    unfolding equalRows_def using ij aug
    by (intro exI [of _ i] exI [of _ j]) auto
  with wf ff have "forwardElimination ?n 0 ?aug = Inl SingularMatrix"
    by (intro forwardElimination_degenerate) auto
  then have "solveLinearSystem ?A values = Inl SingularMatrix"
    by (simp add: solveLinearSystem_def)
  with len ij(2) nrm e show ?thesis
    by (auto simp: constructor_def computeWeights_def Let_def)
qed

lemma two_coincident_points:
  assumes "kernelOf func \<noteq> None"
  shows "constructor [p, p] [v0, v1] func 0 eps = Inl SingularMatrix"
  using coincident_points_singular [of "[p, p]" "[v0, v1]" "length p" 0 1 func eps] assms
  by simp

text \<open>
  Distinct points do not make the system regular. Under the kernel \<open>squared\<close> the matrix of
  four points of a line has rank 3: for the points 0, 7, 8 and 36 the pivot of the last column
  is 0 in exact arithmetic, and the construction is refused. (In machine arithmetic the
  elimination leaves a rounding residue in the place of this pivot.)
\<close>

lemma squared_on_a_line:
  "selectedPivot eliminateColumn 4 3
     (augmentedMatrix
        [[Num 0, Num 49, Num 64, Num 1296], [Num 49, Num 0, Num 1, Num 841],
         [Num 64, Num 1, Num 0, Num 784], [Num 1296, Num 841, Num 784, Num 0]] [1, 2, 3, 4])
     = Num 0 \<and>
   constructor [[0], [7], [8], [36]] [1, 2, 3, 4] ''squared'' 0 None = Inl SingularMatrix"
proof -
  let ?A = "[[Num 0, Num 49, Num 64, Num 1296], [Num 49, Num 0, Num 1, Num 841],
             [Num 64, Num 1, Num 0, Num 784], [Num 1296, Num 841, Num 784, Num 0]]"
  have d: "euclideanDistance [a] [b] = Num \<bar>a - b\<bar>" for a b
    by (simp add: euclideanDistance_def elemr_def power2_eq_square [symmetric])
  have A: "interpolationMatrix [[0], [7], [8], [36]] 0
             (\<lambda>x1 x2. pow (euclideanDistance x1 x2) 2) = ?A"
    by (simp add: interpolationMatrix_def d Let_def elem_def
          upt_rec [of _ "numeral _"] upt_rec [of _ "Suc _"])
  have P: "selectedPivot eliminateColumn 4 3 (augmentedMatrix ?A [1, 2, 3, 4]) = Num 0"
    by code_simp
  have S: "solveLinearSystem ?A [1, 2, 3, 4] = Inl SingularMatrix"
    by code_simp
  have "constructor [[0], [7], [8], [36]] [1, 2, 3, 4] ''squared'' 0 None = Inl SingularMatrix"
    by (simp add: constructor_def computeWeights_def getRbfFunction_def toLowerCase_def
          toLowerCase_char_def Let_def A S)
  with P show ?thesis by simp
qed

text \<open>
  C5. The pivot selection at column \<open>col\<close> is partial pivoting: the row selected is the first
  row, from row \<open>col\<close> on, whose entry in column \<open>col\<close> has the largest magnitude (it is the
  only such row when the column has no \<open>NaN\<close>), and in a matrix of \<open>n\<close> rows the swap puts
  that entry in the place of the pivot. The elimination, whatever the elimination of a column
  computes, fails with \<open>SingularMatrix\<close> exactly when it reaches some column at which the
  magnitude of the selected pivot is below the double \<open>1e-12\<close>, that is
  \<open>4951760157141521 / 2 ^ 92\<close>, the multiple of \<open>1 / 2 ^ 92\<close> nearest to \<open>1 / 10 ^ 12\<close>; it
  reaches a column when no pivot selected at an earlier column is below that bound.
  \<open>solveLinearSystem\<close> fails with \<open>SingularMatrix\<close> exactly when its elimination does, and
  with no other error. Two coincident training points, fitted with smoothing 0 under any known
  kernel name and any shape parameter, make the construction fail with \<open>SingularMatrix\<close>,
  whatever the two values are.
\<close>

theorem singular_matrix:
  "(col < n \<longrightarrow> firstLargest n col aug (findPivot n col aug)) \<and>
   (firstLargest n col aug m \<and> (\<forall>r\<in>{col..<n}. elem (aug ! r) col \<noteq> NaN)
      \<longrightarrow> findPivot n col aug = m) \<and>
   (col < n \<and> length aug = n \<longrightarrow>
      elem (swapRows col (findPivot n col aug) aug ! col) col =
      elem (aug ! findPivot n col aug) col) \<and>
   (forwardEliminationWith eliminate n 0 aug = Inl SingularMatrix \<longleftrightarrow>
      (\<exists>c<n. (\<forall>k<c. \<not> Math_abs (selectedPivot eliminate n k aug)
                         < Num (4951760157141521 / 2 ^ 92)) \<and>
         Math_abs (selectedPivot eliminate n c aug) < Num (4951760157141521 / 2 ^ 92))) \<and>
   \<bar>4951760157141521 / 2 ^ 92 - 1 / 10 ^ 12\<bar> \<le> (1 / 2 ^ 93 :: real) \<and>
   forwardElimination n col aug = forwardEliminationWith eliminateColumn n col aug \<and>
   (solveLinearSystem A b = Inl SingularMatrix \<longleftrightarrow>
      forwardElimination (length A) 0 (augmentedMatrix A b) = Inl SingularMatrix) \<and>
   (\<forall>e. solveLinearSystem A b = Inl e \<longrightarrow> e = SingularMatrix) \<and>
   (kernelOf func \<noteq> None \<longrightarrow> constructor [p, p] [v0, v1] func 0 eps = Inl SingularMatrix)"
proof -
  have "findPivot n col aug = m"
    if "firstLargest n col aug m" "\<forall>r\<in>{col..<n}. elem (aug ! r) col \<noteq> NaN"
  proof -
    from that(1) have "col < n" by (simp add: firstLargest_def)
    from firstLargest_unique [OF findPivot_firstLargest [OF this] that] show ?thesis .
  qed
  then show ?thesis
    using findPivot_firstLargest [of col n aug] swapRows_pivot [of col n aug]
      forwardEliminationWith_singular_iff [of eliminate n aug] threshold_nearest
      forwardElimination_With [of n col aug] solveLinearSystem_singular_iff [of A b]
      solveLinearSystem_error [of A b] two_coincident_points [of func p v0 v1 eps]
    by blast
qed

theorem singular_matrix_witness:
  "(0::nat) < 2 \<and>
   length [[Num 1, Num 2, Num 0], [Num (- 3), Num (- 6), Num 1]] = 2 \<and>
   findPivot 2 0 [[Num 1, Num 2, Num 0], [Num (- 3), Num (- 6), Num 1]] = 1 \<and>
   firstLargest 2 0 [[Num 1, Num 2, Num 0], [Num (- 3), Num (- 6), Num 1]] 1 \<and>
   list_all (\<lambda>r. elem ([[Num 1, Num 2, Num 0], [Num (- 3), Num (- 6), Num 1]] ! r) 0 \<noteq> NaN)
     [0..<2] \<and>
   elem (swapRows 0 1 [[Num 1, Num 2, Num 0], [Num (- 3), Num (- 6), Num 1]] ! 0) 0 = Num (- 3) \<and>
   selectedPivot eliminateColumn 2 0 [[Num 1, Num 2, Num 0], [Num (- 3), Num (- 6), Num 1]]
     = Num (- 3) \<and>
   selectedPivot eliminateColumn 2 1 [[Num 1, Num 2, Num 0], [Num (- 3), Num (- 6), Num 1]]
     = Num 0 \<and>
   forwardElimination 2 0 [[Num 1, Num 2, Num 0], [Num (- 3), Num (- 6), Num 1]]
     = Inl SingularMatrix \<and>
   solveLinearSystem [[Num 1, Num 2], [Num (- 3), Num (- 6)]] [0, 1] = Inl SingularMatrix \<and>
   kernelOf ''gaussian'' \<noteq> None \<and>
   constructor [[1, 2], [1, 2]] [0, 1] ''gaussian'' 0 None = Inl SingularMatrix \<and>
   selectedPivot eliminateColumn 2 0 [[Num 0, Num 1, Num 2], [Num 1, Num 0, Num 3]] = Num 1 \<and>
   selectedPivot eliminateColumn 2 1 [[Num 0, Num 1, Num 2], [Num 1, Num 0, Num 3]] = Num 1 \<and>
   forwardElimination 2 0 [[Num 0, Num 1, Num 2], [Num 1, Num 0, Num 3]] \<noteq> Inl SingularMatrix"
proof -
  let ?aug = "[[Num 1, Num 2, Num 0], [Num (- 3), Num (- 6), Num 1]]"
  let ?A = "[[Num 1, Num 2], [Num (- 3), Num (- 6)]]"
  note inst = singular_matrix [of 0 2 ?aug 1 eliminateColumn ?A "[0, 1]" "''gaussian''"
      "[1, 2]" 0 1 None]
  have z: "(0::nat) < 2" and l: "length ?aug = 2"
    by simp_all
  have fl: "firstLargest 2 0 ?aug 1"
    by (simp add: firstLargest_def elem_def numeral_2_eq_2 atLeastLessThanSuc)
  have fin: "\<forall>r\<in>{0..<2}. elem (?aug ! r) 0 \<noteq> NaN"
    by (simp add: elem_def numeral_2_eq_2 atLeastLessThanSuc)
  from inst fl fin have m: "findPivot 2 0 ?aug = 1"
    by blast
  have p0: "selectedPivot eliminateColumn 2 0 ?aug = Num (- 3)"
    by (simp add: selectedPivot_def solve_defs numeral_2_eq_2)
  have p1: "selectedPivot eliminateColumn 2 1 ?aug = Num 0"
    by (simp add: selectedPivot_def solve_defs numeral_2_eq_2)
  have A: "augmentedMatrix ?A [0, 1] = ?aug" "length ?A = 2"
    by (simp_all add: augmentedMatrix_def elemr_def)
  have k: "kernelOf ''gaussian'' \<noteq> None"
    by (simp add: kernelOf_def kernelTags_def toLowerCase_def toLowerCase_char_def)
  have "\<exists>c<2. (\<forall>k<c. \<not> Math_abs (selectedPivot eliminateColumn 2 k ?aug)
                         < Num (4951760157141521 / 2 ^ 92)) \<and>
         Math_abs (selectedPivot eliminateColumn 2 c ?aug) < Num (4951760157141521 / 2 ^ 92)"
    using p0 p1 by (intro exI [of _ 1]) simp
  with inst have "forwardEliminationWith eliminateColumn 2 0 ?aug = Inl SingularMatrix"
    by blast
  moreover from inst
  have "forwardElimination 2 0 ?aug = forwardEliminationWith eliminateColumn 2 0 ?aug"
    by blast
  ultimately have f: "forwardElimination 2 0 ?aug = Inl SingularMatrix"
    by simp
  from inst have "solveLinearSystem ?A [0, 1] = Inl SingularMatrix \<longleftrightarrow>
      forwardElimination (length ?A) 0 (augmentedMatrix ?A [0, 1]) = Inl SingularMatrix"
    by blast
  with f have s: "solveLinearSystem ?A [0, 1] = Inl SingularMatrix"
    unfolding A by simp
  from inst z l have "elem (swapRows 0 (findPivot 2 0 ?aug) ?aug ! 0) 0 =
      elem (?aug ! findPivot 2 0 ?aug) 0"
    by blast
  then have sw: "elem (swapRows 0 1 ?aug ! 0) 0 = Num (- 3)"
    unfolding m by (simp add: elem_def)
  from inst k have c: "constructor [[1, 2], [1, 2]] [0, 1] ''gaussian'' 0 None = Inl SingularMatrix"
    by blast
  from fin have fin': "list_all (\<lambda>r. elem (?aug ! r) 0 \<noteq> NaN) [0..<2]"
    by (simp add: list_all_iff)
  let ?ex = "[[Num 0, Num 1, Num 2], [Num 1, Num 0, Num 3]]"
  note inst' = singular_matrix [of 0 2 ?ex 1 eliminateColumn ?A "[0, 1]" "''gaussian''"
      "[1, 2]" 0 1 None]
  have q0: "selectedPivot eliminateColumn 2 0 ?ex = Num 1"
    by (simp add: selectedPivot_def solve_defs numeral_2_eq_2)
  have q1: "selectedPivot eliminateColumn 2 1 ?ex = Num 1"
    by (simp add: selectedPivot_def solve_defs numeral_2_eq_2)
  have "\<not> (\<exists>c<2. (\<forall>k<c. \<not> Math_abs (selectedPivot eliminateColumn 2 k ?ex)
                         < Num (4951760157141521 / 2 ^ 92)) \<and>
         Math_abs (selectedPivot eliminateColumn 2 c ?ex) < Num (4951760157141521 / 2 ^ 92))"
    using q0 q1 by (auto simp: numeral_2_eq_2 less_Suc_eq)
  with inst' have "forwardEliminationWith eliminateColumn 2 0 ?ex \<noteq> Inl SingularMatrix"
    by blast
  moreover from inst'
  have "forwardElimination 2 0 ?ex = forwardEliminationWith eliminateColumn 2 0 ?ex"
    by blast
  ultimately have g: "forwardElimination 2 0 ?ex \<noteq> Inl SingularMatrix"
    by simp
  from z l m fl fin' sw p0 p1 f s k c q0 q1 g show ?thesis
    by blast
qed

section \<open>Copies and mutation\<close>

lemma copyRows_eq:
  "copyRows h pts = ([length h..<length h + length pts], h @ map Numbers pts)"
proof (induction pts arbitrary: h)
  case Nil
  then show ?case by simp
next
  case (Cons p ps)
  have "[length h..<length h + length (p # ps)] =
        length h # [Suc (length h)..<Suc (length h) + length ps]"
    by (simp add: upt_conv_Cons del: upt_Suc)
  with Cons [of "h @ [Numbers p]"] show ?case
    by (simp add: alloc_def del: upt_Suc)
qed

lemma those_map_Some:
  assumes "\<forall>i<length rs. f (rs ! i) = Some (xs ! i)" "length xs = length rs"
  shows "those (map f rs) = Some xs"
  using assms
proof (induction rs arbitrary: xs)
  case Nil
  then show ?case by simp
next
  case (Cons r rs)
  then obtain y ys where xs: "xs = y # ys" by (cases xs) auto
  with Cons.prems have "f r = Some y" "\<forall>i<length rs. f (rs ! i) = Some (ys ! i)"
    "length ys = length rs"
    by auto
  with Cons.IH [of ys] xs show ?case by simp
qed

text \<open>A store that keeps the cells \<open>lo .. lo + n + 2\<close> of the construction.\<close>

lemma load_constructed:
  assumes cells: "lo + length pts + 3 \<le> length h2"
      and rows: "\<forall>i<length pts. h2 ! (lo + i) = Numbers (pts ! i)"
      and outer: "h2 ! (lo + length pts) = Rows [lo..<lo + length pts]"
      and vals: "h2 ! (lo + length pts + 1) = Numbers vals"
      and ws: "h2 ! (lo + length pts + 2) = Computed w"
  shows "loadInterpolator h2
           \<lparr>diRef = lo + length pts + 1, weightsRef = lo + length pts + 2,
            nodesRef = lo + length pts, smoothVal = s, epsilonVal = e, normVal = nrm\<rparr> =
         Some \<lparr>di = vals, weights = w, nodes = pts, smooth = s, epsilon = e, norm' = nrm\<rparr>"
proof -
  have "those (map (readNumbers h2) [lo..<lo + length pts]) = Some pts"
    using cells rows by (intro those_map_Some) (auto simp: readNumbers_def)
  then have "readRows h2 (lo + length pts) = Some pts"
    using cells outer by (simp add: readRows_def)
  moreover have "readNumbers h2 (lo + length pts + 1) = Some vals"
    using cells vals by (simp add: readNumbers_def)
  moreover have "readComputed h2 (lo + length pts + 2) = Some w"
    using cells ws by (simp add: readComputed_def)
  ultimately show ?thesis
    by (simp add: loadInterpolator_def)
qed

lemma constructorStore_success:
  assumes "constructorStore h points values func smth eps = Some (Inr this, h1)"
  shows "\<exists>pts vals m.
           readRows h points = Some pts \<and> readNumbers h values = Some vals \<and>
           constructor pts vals func smth eps = Inr m \<and>
           h1 = h @ map Numbers pts @
                  [Rows [length h..<length h + length pts], Numbers vals, Computed (weights m)] \<and>
           this = \<lparr>diRef = length h + length pts + 1, weightsRef = length h + length pts + 2,
                   nodesRef = length h + length pts, smoothVal = smooth m,
                   epsilonVal = epsilon m, normVal = norm' m\<rparr> \<and>
           nodes m = pts \<and> di m = vals"
proof -
  from assms obtain pts vals where
    pts: "readRows h points = Some pts" and vals: "readNumbers h values = Some vals"
    by (auto simp: constructorStore_def split: bind_splits)
  let ?lo = "length h"
  let ?h3 = "h @ map Numbers pts @ [Rows [?lo..<?lo + length pts], Numbers vals]"
  have r1: "readRows ?h3 (?lo + length pts) = Some pts"
  proof -
    have "those (map (readNumbers ?h3) [?lo..<?lo + length pts]) = Some pts"
      by (intro those_map_Some) (auto simp: readNumbers_def nth_append)
    then show ?thesis by (simp add: readRows_def nth_append)
  qed
  have r2: "readNumbers ?h3 (Suc (?lo + length pts)) = Some vals"
    by (simp add: readNumbers_def nth_append)
  show ?thesis
    using assms pts vals r1 r2
    by (auto simp: constructorStore_def constructor_def copyRows_eq alloc_def Let_def
        split: if_splits sum.splits)
qed

lemma those_Some_all:
  "those (map f rs) = Some xs \<Longrightarrow> \<forall>r\<in>set rs. f r \<noteq> None"
  by (induction rs arbitrary: xs) (auto split: option.splits)

lemma readNumbers_bound: "readNumbers h r = Some xs \<Longrightarrow> r < length h"
  by (auto simp: readNumbers_def split: if_splits)

lemma readRows_bound:
  assumes "readRows h r = Some pts"
  shows "r < length h \<and> (\<exists>rs. h ! r = Rows rs \<and> (\<forall>x\<in>set rs. x < length h))"
proof -
  from assms obtain rs where r: "r < length h" "h ! r = Rows rs"
    "those (map (readNumbers h) rs) = Some pts"
    by (auto simp: readRows_def split: if_splits array.splits)
  from those_Some_all [OF r(3)] have "\<forall>x\<in>set rs. x < length h"
    by (auto dest: readNumbers_bound)
  with r show ?thesis by simp
qed

text \<open>
  C9. Let the construction succeed on a store \<open>h\<close> and leave the store \<open>h1\<close>. The
  caller's arrays (the points, their rows, the values) are arrays of \<open>h\<close>, and the
  interpolator that is returned is the one the constructor computes from the contents they
  had at that moment. In every later store that still has the arrays allocated by the
  construction, whatever was written to the arrays that existed before (the caller's points,
  their rows and the values among them) and whatever was allocated since, \<open>interpolatePoint\<close>
  and \<open>interpolate\<close> return what they return for that interpolator, and they leave the
  store as it is.
\<close>

theorem construction_copies:
  assumes "constructorStore h points values func smth eps = Some (Inr this, h1)"
  shows "\<exists>pts vals m.
           readRows h points = Some pts \<and> readNumbers h values = Some vals \<and>
           points < length h \<and> values < length h \<and>
           (\<exists>rs. h ! points = Rows rs \<and> (\<forall>r\<in>set rs. r < length h)) \<and>
           constructor pts vals func smth eps = Inr m \<and> nodes m = pts \<and> di m = vals \<and>
           loadInterpolator h1 this = Some m \<and>
           (\<forall>h2. length h1 \<le> length h2 \<and>
                 (\<forall>a. length h \<le> a \<and> a < length h1 \<longrightarrow> h2 ! a = h1 ! a) \<longrightarrow>
                 (\<forall>q. interpolatePointStore h2 this q = Some (interpolatePoint m q, h2)) \<and>
                 (\<forall>qs. interpolateStore h2 this qs = Some (interpolate m qs, h2))) \<and>
           (\<forall>a v q. a < length h \<longrightarrow>
              interpolatePointStore (h1[a := v]) this q =
                Some (interpolatePoint m q, h1[a := v]))"
proof -
  from constructorStore_success [OF assms] obtain pts vals m where
    c: "readRows h points = Some pts" "readNumbers h values = Some vals"
       "constructor pts vals func smth eps = Inr m"
       "h1 = h @ map Numbers pts @
          [Rows [length h..<length h + length pts], Numbers vals, Computed (weights m)]"
       "this = \<lparr>diRef = length h + length pts + 1, weightsRef = length h + length pts + 2,
               nodesRef = length h + length pts, smoothVal = smooth m,
               epsilonVal = epsilon m, normVal = norm' m\<rparr>"
       "nodes m = pts" "di m = vals"
    by blast
  have m: "m = \<lparr>di = vals, weights = weights m, nodes = pts, smooth = smooth m,
                epsilon = epsilon m, norm' = norm' m\<rparr>"
    using c(6,7) by simp
  have load: "loadInterpolator h2 this = Some m"
    if "length h1 \<le> length h2" "\<forall>a. length h \<le> a \<and> a < length h1 \<longrightarrow> h2 ! a = h1 ! a"
    for h2
  proof -
    have len: "length h1 = length h + length pts + 3"
      using c(4) by simp
    have cell: "h2 ! (length h + i) = h1 ! (length h + i)" if "i < length pts + 3" for i
      using that \<open>\<forall>a. length h \<le> a \<and> a < length h1 \<longrightarrow> h2 ! a = h1 ! a\<close> len by simp
    have "loadInterpolator h2
           \<lparr>diRef = length h + length pts + 1, weightsRef = length h + length pts + 2,
            nodesRef = length h + length pts, smoothVal = smooth m, epsilonVal = epsilon m,
            normVal = norm' m\<rparr> =
          Some \<lparr>di = vals, weights = weights m, nodes = pts, smooth = smooth m,
                epsilon = epsilon m, norm' = norm' m\<rparr>"
    proof (rule load_constructed)
      show "length h + length pts + 3 \<le> length h2"
        using that(1) len by simp
      show "\<forall>i<length pts. h2 ! (length h + i) = Numbers (pts ! i)"
        using cell c(4) by (simp add: nth_append)
      show "h2 ! (length h + length pts) = Rows [length h..<length h + length pts]"
        using cell [of "length pts"] c(4) by (simp add: nth_append)
      show "h2 ! (length h + length pts + 1) = Numbers vals"
        using cell [of "length pts + 1"] c(4) by (simp add: nth_append)
      show "h2 ! (length h + length pts + 2) = Computed (weights m)"
        using cell [of "length pts + 2"] c(4) by (simp add: nth_append)
    qed
    with c(5) m show ?thesis by simp
  qed
  have le: "length h \<le> length h1"
    using c(4) by simp
  have "loadInterpolator h1 this = Some m"
    by (rule load) simp_all
  moreover have "interpolatePointStore (h1[a := v]) this q =
                 Some (interpolatePoint m q, h1[a := v])" if "a < length h" for a v q
    using load [of "h1[a := v]"] that by (simp add: interpolatePointStore_def)
  moreover note readRows_bound [OF c(1)] readNumbers_bound [OF c(2)]
  ultimately show ?thesis
    using c(1,2,3,6,7) load
    by (intro exI [of _ pts] exI [of _ vals] exI [of _ m])
      (simp add: interpolatePointStore_def interpolateStore_def)
qed

lemmas store_defs = constructorStore_def readRows_def readNumbers_def readComputed_def
  alloc_def loadInterpolator_def

theorem construction_copies_witness:
  "\<exists>this h1 m.
     constructorStore [Numbers [0], Numbers [1], Rows [0, 1], Numbers [3, 4]] 2 3
       ''linear'' 2 None = Some (Inr this, h1) \<and>
     readRows [Numbers [0], Numbers [1], Rows [0, 1], Numbers [3, 4]] 2 = Some [[0], [1]] \<and>
     readNumbers [Numbers [0], Numbers [1], Rows [0, 1], Numbers [3, 4]] 3 = Some [3, 4] \<and>
     constructor [[0], [1]] [3, 4] ''linear'' 2 None = Inr m \<and>
     (0::nat) < length [Numbers [0], Numbers [1], Rows [0, 1], Numbers [3, 4]] \<and>
     readRows (h1[0 := Numbers [100]]) 2 = Some [[100], [1]] \<and>
     interpolatePointStore (h1[0 := Numbers [100]]) this [1] =
       Some (interpolatePoint m [1], h1[0 := Numbers [100]]) \<and>
     interpolatePoint m [1] = Inr (Num (2 / 3))"
proof -
  let ?h = "[Numbers [0], Numbers [1], Rows [0, 1], Numbers [3, 4]]"
  let ?h1 = "?h @ [Numbers [0], Numbers [1], Rows [4, 5], Numbers [3, 4],
                   Computed [Num (2 / 3), Num (5 / 3)]]"
  let ?T = "\<lparr>diRef = 7, weightsRef = 8, nodesRef = 6, smoothVal = 2, epsilonVal = Num 1,
            normVal = euclideanDistance\<rparr>"
  let ?M = "\<lparr>di = [3, 4], weights = [Num (2 / 3), Num (5 / 3)], nodes = [[0], [1]],
            smooth = 2, epsilon = Num 1, norm' = euclideanDistance\<rparr>"
  have fit: "constructorStore ?h 2 3 ''linear'' 2 None = Some (Inr ?T, ?h1)"
    by (simp add: store_defs fit_defs solve_defs euclideanDistance_def forwardElimination.simps)
  have rd: "readRows ?h 2 = Some [[0], [1]]" "readNumbers ?h 3 = Some [3, 4]"
    by (simp_all add: store_defs)
  have pure: "constructor [[0], [1]] [3, 4] ''linear'' 2 None = Inr ?M"
    by (simp add: fit_defs solve_defs euclideanDistance_def forwardElimination.simps)
  have changed: "readRows (?h1[0 := Numbers [100]]) 2 = Some [[100], [1]]"
    by (simp add: store_defs)
  have val: "interpolatePoint ?M [1] = Inr (Num (2 / 3))"
    by (simp add: interpolatePoint_def elem_def euclideanDistance_def elemr_def)
  have pos: "(0::nat) < length ?h"
    by simp
  from construction_copies [OF fit] obtain pts vals m where
    m: "readRows ?h 2 = Some pts" "readNumbers ?h 3 = Some vals"
       "constructor pts vals ''linear'' 2 None = Inr m"
       "\<forall>a v q. a < length ?h \<longrightarrow>
          interpolatePointStore (?h1[a := v]) ?T q = Some (interpolatePoint m q, ?h1[a := v])"
    by blast
  from m(1,2) rd have "pts = [[0], [1]]" "vals = [3, 4]"
    by simp_all
  with m(3) pure have "m = ?M"
    by simp
  with m(4) pos have
    "interpolatePointStore (?h1[0 := Numbers [100]]) ?T [1] =
       Some (interpolatePoint ?M [1], ?h1[0 := Numbers [100]])"
    by blast
  with fit rd pure pos changed val show ?thesis
    by (intro exI [of _ ?T] exI [of _ ?h1] exI [of _ ?M]) (simp only: simp_thms)
qed

end
